theory Spec2Isabelle
  imports Main "HOL-Library.Word"
begin

section \<open>Screenshot plugin: chord detector and framebuffer encoder\<close>

text \<open>
  A shallow embedding of \<^verbatim>\<open>src/main.c\<close>. The three statics of the plugin and the parts of
  the host the code talks to (display, clock, file system, log, hook registry) are the fields
  of one record that every function takes and returns.

  C's \<^verbatim>\<open>int\<close> is a 32-bit word read through \<open>sint\<close>; signed overflow, undefined in ISO C,
  is written as the two's-complement wrap-around of \<open>+\<close> and \<open>*\<close> on words. \<^verbatim>\<open>uint8_t\<close> and
  \<^verbatim>\<open>uint32_t\<close> are words read through \<open>unat\<close>. A read outside the pixel buffer is undefined
  behaviour in C; here it is the result \<open>Inl OutOfBounds\<close>, which ends the capture and the run
  of the hook that started it.
\<close>

type_synonym u8 = "8 word"
type_synonym u32 = "32 word"
type_synonym c_int = "32 word"

subsection \<open>printf conversions\<close>

definition digit_char :: "nat \<Rightarrow> char" where
  "digit_char d = ''0123456789'' ! d"

fun dec_nat :: "nat \<Rightarrow> string" where
  "dec_nat n = (if n < 10 then [digit_char n] else dec_nat (n div 10) @ [digit_char (n mod 10)])"

declare dec_nat.simps [simp del]

text \<open>\<^verbatim>\<open>%d\<close>: a minus sign for a negative number, then the decimal digits.\<close>

definition fmt_d :: "int \<Rightarrow> string" where
  "fmt_d n = (if n < 0 then CHR ''-'' # dec_nat (nat (- n)) else dec_nat (nat n))"

text \<open>
  \<^verbatim>\<open>%0wd\<close>: \<open>w\<close> is a minimum field width; the zeros go between the sign and the digits, and
  a number with more digits is printed in full.
\<close>

definition fmt_0d :: "nat \<Rightarrow> int \<Rightarrow> string" where
  "fmt_0d w n =
     (let ds = dec_nat (nat \<bar>n\<bar>);
          sg = (if n < 0 then ''-'' else '''')
      in sg @ replicate (w - length sg - length ds) CHR ''0'' @ ds)"

definition byte_of_char :: "char \<Rightarrow> u8" where
  "byte_of_char c = of_char c"

definition bytes_of :: "string \<Rightarrow> u8 list" where
  "bytes_of s = map byte_of_char s"

subsection \<open>Data\<close>

text \<open>
  The enumeration of event kinds is declared in \<^verbatim>\<open>tanmatsu_plugin.h\<close>; the code names one
  member only, so every other kind is one constructor carrying its number.
\<close>

datatype plugin_input_event_type =
    PLUGIN_INPUT_EVENT_TYPE_SCANCODE
  | PLUGIN_INPUT_EVENT_TYPE_OTHER nat

record plugin_input_event =
  type :: plugin_input_event_type
  key :: u32

definition BSP_INPUT_SCANCODE_P :: u32 where
  "BSP_INPUT_SCANCODE_P = 0x19"

definition BSP_INPUT_SCANCODE_LEFTMETA :: u32 where
  "BSP_INPUT_SCANCODE_LEFTMETA = 0xe05b"

definition BSP_INPUT_SCANCODE_RIGHTMETA :: u32 where
  "BSP_INPUT_SCANCODE_RIGHTMETA = 0xe05c"

definition BSP_INPUT_SCANCODE_LEFTMETA_REL :: u32 where
  "BSP_INPUT_SCANCODE_LEFTMETA_REL = 0xe0db"

definition BSP_INPUT_SCANCODE_RIGHTMETA_REL :: u32 where
  "BSP_INPUT_SCANCODE_RIGHTMETA_REL = 0xe0dc"

text \<open>The fields of \<^verbatim>\<open>pax_buf_t\<close> and \<^verbatim>\<open>struct tm\<close> that the code reads.\<close>

record pax_buf =
  width :: c_int
  height :: c_int
  pixels :: "u8 list option"

record tm =
  tm_sec :: c_int
  tm_min :: c_int
  tm_hour :: c_int
  tm_mday :: c_int
  tm_mon :: c_int
  tm_year :: c_int

datatype fault = OutOfBounds

datatype log_level = LOG_INFO | LOG_ERROR

datatype host_call =
    DISP_GET_PAX_BUF
  | PAX_BUF_GET_PIXELS
  | FOPEN string
  | FCLOSE string
  | HOOK_REGISTER
  | HOOK_UNREGISTER c_int

text \<open>
  \<open>plugin_ctx\<close>, \<open>hook_id\<close> and \<open>logo_key_held\<close> are the statics of the plugin. The other fields
  are the host as the code sees it: \<open>disp_pax_buf\<close> is what \<^verbatim>\<open>asp_disp_get_pax_buf\<close> stores
  (\<open>None\<close> for \<^verbatim>\<open>NULL\<close>), \<open>local_time\<close> what \<^verbatim>\<open>localtime_r\<close> fills in, \<open>fopen_ok\<close> says
  for which paths \<^verbatim>\<open>fopen(path, "wb")\<close> succeeds, \<open>files\<close> maps a path to the bytes of the
  file there, \<open>logged\<close> is what went to the log, \<open>calls\<close> is the sequence of calls into the
  host, and \<open>hooks\<close> the handles of the input hooks registered at the host.
\<close>

record state =
  plugin_ctx :: "nat option"
  hook_id :: c_int
  logo_key_held :: bool
  disp_pax_buf :: "pax_buf option"
  local_time :: tm
  fopen_ok :: "string \<Rightarrow> bool"
  files :: "string \<Rightarrow> u8 list option"
  logged :: "(log_level \<times> string \<times> string) list"
  calls :: "host_call list"
  hooks :: "c_int set"

definition asp_log_info :: "string \<Rightarrow> string \<Rightarrow> state \<Rightarrow> state" where
  "asp_log_info tag msg s = s\<lparr>logged := logged s @ [(LOG_INFO, tag, msg)]\<rparr>"

definition asp_log_error :: "string \<Rightarrow> string \<Rightarrow> state \<Rightarrow> state" where
  "asp_log_error tag msg s = s\<lparr>logged := logged s @ [(LOG_ERROR, tag, msg)]\<rparr>"

definition host_called :: "host_call \<Rightarrow> state \<Rightarrow> state" where
  "host_called c s = s\<lparr>calls := calls s @ [c]\<rparr>"

subsection \<open>The framebuffer encoder\<close>

definition read_pixels :: "u8 list \<Rightarrow> int \<Rightarrow> fault + u8" where
  "read_pixels px i =
     (if 0 \<le> i \<and> i < int (length px) then Inr (px ! nat i) else Inl OutOfBounds)"

text \<open>The body of the inner loop: the three bytes put to the file for pixel \<open>(x, y)\<close>.\<close>

definition put_pixel :: "u8 list \<Rightarrow> c_int \<Rightarrow> c_int \<Rightarrow> c_int \<Rightarrow> fault + u8 list" where
  "put_pixel px w y x =
     (let idx = (y * w + x) * 3 in
      case read_pixels px (sint (idx + 0)) of Inl f \<Rightarrow> Inl f | Inr b \<Rightarrow>
      (case read_pixels px (sint (idx + 1)) of Inl f \<Rightarrow> Inl f | Inr g \<Rightarrow>
      (case read_pixels px (sint (idx + 2)) of Inl f \<Rightarrow> Inl f | Inr r \<Rightarrow>
         Inr [r, g, b])))"

text \<open>
  The loops over \<open>x\<close> and \<open>y\<close>; \<open>out\<close> is what has been written to the file so far.
\<close>

function put_row :: "u8 list \<Rightarrow> c_int \<Rightarrow> c_int \<Rightarrow> c_int \<Rightarrow> u8 list \<Rightarrow> fault + u8 list" where
  "put_row px w y x out =
     (if x <s w then
        (case put_pixel px w y x of
           Inl f \<Rightarrow> Inl f
         | Inr rgb \<Rightarrow> put_row px w y (x + 1) (out @ rgb))
      else Inr out)"
  by pat_completeness auto

termination put_row
proof (relation "measure (\<lambda>(px, w, y, x, out). nat (sint w - sint x))")
  show "wf (measure (\<lambda>(px, w, y, x, out). nat (sint w - sint x)))"
    by simp
next
  fix px :: "u8 list" and w y x :: c_int and out rgb :: "u8 list"
  assume "x <s w"
  then have lt: "sint x < sint w"
    by (simp add: word_sless_alt)
  have "sint w < 2 ^ 31" "- (2 ^ 31) \<le> sint x"
    using sint_lt [of w] sint_ge [of x] by simp_all
  with lt have "signed_take_bit 31 (sint x + 1) = sint x + 1"
    by (intro signed_take_bit_int_eq_self) auto
  then have "sint (x + 1) = sint x + 1"
    by (simp add: sint_word_ariths)
  with lt show "((px, w, y, x + 1, out @ rgb), (px, w, y, x, out))
      \<in> measure (\<lambda>(px, w, y, x, out). nat (sint w - sint x))"
    by simp
qed

function put_rows :: "u8 list \<Rightarrow> c_int \<Rightarrow> c_int \<Rightarrow> c_int \<Rightarrow> u8 list \<Rightarrow> fault + u8 list" where
  "put_rows px w h y out =
     (if y <s h then
        (case put_row px w y 0 out of
           Inl f \<Rightarrow> Inl f
         | Inr out' \<Rightarrow> put_rows px w h (y + 1) out')
      else Inr out)"
  by pat_completeness auto

termination put_rows
proof (relation "measure (\<lambda>(px, w, h, y, out). nat (sint h - sint y))")
  show "wf (measure (\<lambda>(px, w, h, y, out). nat (sint h - sint y)))"
    by simp
next
  fix px :: "u8 list" and w h y :: c_int and out out' :: "u8 list"
  assume "y <s h"
  then have lt: "sint y < sint h"
    by (simp add: word_sless_alt)
  have "sint h < 2 ^ 31" "- (2 ^ 31) \<le> sint y"
    using sint_lt [of h] sint_ge [of y] by simp_all
  with lt have "signed_take_bit 31 (sint y + 1) = sint y + 1"
    by (intro signed_take_bit_int_eq_self) auto
  then have "sint (y + 1) = sint y + 1"
    by (simp add: sint_word_ariths)
  with lt show "((px, w, h, y + 1, out'), (px, w, h, y, out))
      \<in> measure (\<lambda>(px, w, h, y, out). nat (sint h - sint y))"
    by simp
qed

declare put_row.simps [simp del] put_rows.simps [simp del]

definition screenshot_filename :: "tm \<Rightarrow> string" where
  "screenshot_filename t =
     take 63 (''/sd/screenshot-''
       @ fmt_0d 4 (sint (tm_year t + 1900))
       @ fmt_0d 2 (sint (tm_mon t + 1))
       @ fmt_0d 2 (sint (tm_mday t))
       @ fmt_0d 2 (sint (tm_hour t))
       @ fmt_0d 2 (sint (tm_min t))
       @ fmt_0d 2 (sint (tm_sec t))
       @ ''.ppm'')"

definition ppm_header :: "c_int \<Rightarrow> c_int \<Rightarrow> string" where
  "ppm_header w h =
     ''P6'' @ [CHR 0x0A] @ fmt_d (sint w) @ '' '' @ fmt_d (sint h) @ [CHR 0x0A]
       @ ''255'' @ [CHR 0x0A]"

text \<open>
  \<^verbatim>\<open>save_screenshot\<close>. The results of \<^verbatim>\<open>fprintf\<close>, \<^verbatim>\<open>fputc\<close> and \<^verbatim>\<open>fclose\<close> are not looked
  at by the code; the model takes every write to an open file to succeed.
\<close>

definition save_screenshot :: "state \<Rightarrow> fault + state" where
  "save_screenshot s0 =
     (let s1 = host_called DISP_GET_PAX_BUF s0 in
      case disp_pax_buf s1 of
        None \<Rightarrow> Inr (asp_log_error ''screenshot'' ''Failed to get PAX buffer'' s1)
      | Some buf \<Rightarrow>
          (let w = width buf; h = height buf;
               s2 = host_called PAX_BUF_GET_PIXELS s1 in
           case pixels buf of
             None \<Rightarrow> Inr (asp_log_error ''screenshot'' ''Failed to get pixel data'' s2)
           | Some px \<Rightarrow>
               (let filename = screenshot_filename (local_time s2);
                    s3 = asp_log_info ''screenshot''
                           (''Saving screenshot to '' @ filename @ '' (''
                              @ fmt_d (sint w) @ ''x'' @ fmt_d (sint h) @ '')'') s2;
                    s4 = host_called (FOPEN filename) s3
                in if \<not> fopen_ok s4 filename then
                     Inr (asp_log_error ''screenshot'' (''Failed to open file '' @ filename) s4)
                   else
                     (case put_rows px w h 0 (bytes_of (ppm_header w h)) of
                        Inl f \<Rightarrow> Inl f
                      | Inr out \<Rightarrow>
                          (let s5 = s4\<lparr>files := (files s4)(filename \<mapsto> out)\<rparr>;
                               s6 = host_called (FCLOSE filename) s5
                           in Inr (asp_log_info ''screenshot''
                                     (''Screenshot saved: '' @ filename) s6))))))"

subsection \<open>The chord detector\<close>

definition input_hook_callback :: "plugin_input_event \<Rightarrow> state \<Rightarrow> fault + (bool \<times> state)" where
  "input_hook_callback event s =
     (if type event \<noteq> PLUGIN_INPUT_EVENT_TYPE_SCANCODE then Inr (False, s)
      else
        (let scancode = key event in
         if scancode = BSP_INPUT_SCANCODE_LEFTMETA \<or> scancode = BSP_INPUT_SCANCODE_RIGHTMETA
         then Inr (False, s\<lparr>logo_key_held := True\<rparr>)
         else if scancode = BSP_INPUT_SCANCODE_LEFTMETA_REL
                 \<or> scancode = BSP_INPUT_SCANCODE_RIGHTMETA_REL
         then Inr (False, s\<lparr>logo_key_held := False\<rparr>)
         else if scancode = BSP_INPUT_SCANCODE_P \<and> logo_key_held s
         then
           (case save_screenshot
                   (asp_log_info ''screenshot'' ''LOGO+P detected, taking screenshot...'' s) of
              Inl f \<Rightarrow> Inl f
            | Inr s' \<Rightarrow> Inr (True, s'\<lparr>logo_key_held := False\<rparr>))
         else Inr (False, s)))"

text \<open>
  The host delivers the events to the hook one at a time, in order; a fault in the capture
  ends the run.
\<close>

fun run :: "plugin_input_event list \<Rightarrow> state \<Rightarrow> fault + state" where
  "run [] s = Inr s"
| "run (e # es) s =
     (case input_hook_callback e s of
        Inl f \<Rightarrow> Inl f
      | Inr (handled, s') \<Rightarrow> run es s')"

text \<open>
  \<^verbatim>\<open>save_screenshot\<close> begins with the call of \<^verbatim>\<open>asp_disp_get_pax_buf\<close> and nothing else
  calls it, so the number of these calls is the number of captures started.
\<close>

definition captures :: "state \<Rightarrow> nat" where
  "captures s = count_list (calls s) DISP_GET_PAX_BUF"

subsection \<open>The plugin's life cycle\<close>

text \<open>
  Modelled from the spec: \<^verbatim>\<open>asp_plugin_input_hook_register\<close> and
  \<^verbatim>\<open>asp_plugin_input_hook_unregister\<close> are functions of the host. The spec says of them that
  the host supplies a registration handle, an opaque integer of which a negative value
  signals that the registration failed, and that the handle is kept to unregister the hook.
  \<open>r\<close> is the handle the host answers with; \<open>hooks\<close> holds the handles of the hooks the host
  has registered for the plugin.
\<close>

definition asp_plugin_input_hook_register :: "c_int \<Rightarrow> state \<Rightarrow> c_int \<times> state" where
  "asp_plugin_input_hook_register r s =
     (r, (host_called HOOK_REGISTER s)
           \<lparr>hooks := (if r <s 0 then hooks s else insert r (hooks s))\<rparr>)"

definition asp_plugin_input_hook_unregister :: "c_int \<Rightarrow> state \<Rightarrow> state" where
  "asp_plugin_input_hook_unregister i s =
     (host_called (HOOK_UNREGISTER i) s)\<lparr>hooks := hooks s - {i}\<rparr>"

definition plugin_init :: "nat option \<Rightarrow> c_int \<Rightarrow> state \<Rightarrow> c_int \<times> state" where
  "plugin_init ctx r s0 =
     (let s1 = asp_log_info ''screenshot'' ''Screenshot plugin initializing...'' s0;
          s2 = s1\<lparr>plugin_ctx := ctx\<rparr>;
          (i, s3) = asp_plugin_input_hook_register r s2;
          s4 = s3\<lparr>hook_id := i\<rparr>
      in if hook_id s4 <s 0
         then (- 1, asp_log_error ''screenshot'' ''Failed to register input hook'' s4)
         else (0, asp_log_info ''screenshot''
                    (''Screenshot plugin initialized, hook_id='' @ fmt_d (sint (hook_id s4))) s4))"

definition plugin_cleanup :: "nat option \<Rightarrow> state \<Rightarrow> state" where
  "plugin_cleanup ctx s0 =
     (let s1 = (if 0 \<le>s hook_id s0
                then (asp_plugin_input_hook_unregister (hook_id s0) s0)\<lparr>hook_id := - 1\<rparr>
                else s0);
          s2 = s1\<lparr>plugin_ctx := None\<rparr>
      in asp_log_info ''screenshot'' ''Screenshot plugin cleaned up'' s2)"

text \<open>The host's calls of the two entry points, in order.\<close>

datatype entry_call = INIT "nat option" c_int | CLEANUP "nat option"

fun entry :: "entry_call \<Rightarrow> state \<Rightarrow> state" where
  "entry (INIT ctx r) s = snd (plugin_init ctx r s)"
| "entry (CLEANUP ctx) s = plugin_cleanup ctx s"

fun lifecycle :: "entry_call list \<Rightarrow> state \<Rightarrow> state" where
  "lifecycle [] s = s"
| "lifecycle (c # cs) s = lifecycle cs (entry c s)"

fun registered_ok :: "entry_call \<Rightarrow> bool" where
  "registered_ok (INIT ctx r) = (\<not> r <s 0)"
| "registered_ok (CLEANUP ctx) = False"

fun is_unregister :: "host_call \<Rightarrow> bool" where
  "is_unregister (HOOK_UNREGISTER i) = True"
| "is_unregister c = False"

definition unregistrations :: "state \<Rightarrow> nat" where
  "unregistrations s = length (filter is_unregister (calls s))"

text \<open>
  The order in which the host uses the entry points: \<^verbatim>\<open>init\<close> on a plugin that is not
  initialised, \<^verbatim>\<open>cleanup\<close> at any time. The flag says whether \<^verbatim>\<open>init\<close> has been called
  since the last \<^verbatim>\<open>cleanup\<close>.
\<close>

fun host_order :: "bool \<Rightarrow> entry_call list \<Rightarrow> bool" where
  "host_order l [] = True"
| "host_order l (INIT ctx r # cs) = (\<not> l \<and> host_order True cs)"
| "host_order l (CLEANUP ctx # cs) = host_order False cs"

text \<open>The handle is nonnegative exactly when a hook is registered, and then it is that hook.\<close>

definition handle_inv :: "state \<Rightarrow> bool" where
  "handle_inv s \<longleftrightarrow> hooks s = (if 0 \<le>s hook_id s then {hook_id s} else {})"

subsection \<open>Vocabulary of the specification\<close>

definition modifier_press :: "plugin_input_event \<Rightarrow> bool" where
  "modifier_press e \<longleftrightarrow>
     type e = PLUGIN_INPUT_EVENT_TYPE_SCANCODE
     \<and> (key e = BSP_INPUT_SCANCODE_LEFTMETA \<or> key e = BSP_INPUT_SCANCODE_RIGHTMETA)"

definition modifier_release :: "plugin_input_event \<Rightarrow> bool" where
  "modifier_release e \<longleftrightarrow>
     type e = PLUGIN_INPUT_EVENT_TYPE_SCANCODE
     \<and> (key e = BSP_INPUT_SCANCODE_LEFTMETA_REL \<or> key e = BSP_INPUT_SCANCODE_RIGHTMETA_REL)"

definition trigger_press :: "plugin_input_event \<Rightarrow> bool" where
  "trigger_press e \<longleftrightarrow>
     type e = PLUGIN_INPUT_EVENT_TYPE_SCANCODE \<and> key e = BSP_INPUT_SCANCODE_P"

text \<open>
  The framebuffer view of the spec's data model: width and height positive and a buffer of
  width * height * 3 bytes. The buffer is an object of a machine whose \<^verbatim>\<open>int\<close> and addresses
  have 32 bits, so it has fewer than \<open>2 ^ 31\<close> bytes and every index into it is an \<^verbatim>\<open>int\<close>.
\<close>

definition framebuffer_ok :: "pax_buf \<Rightarrow> bool" where
  "framebuffer_ok b \<longleftrightarrow>
     (case pixels b of
        None \<Rightarrow> True
      | Some px \<Rightarrow>
          0 < sint (width b) \<and> 0 < sint (height b)
          \<and> int (length px) = sint (width b) * sint (height b) * 3
          \<and> length px < 2 ^ 31)"

definition display_ok :: "state \<Rightarrow> bool" where
  "display_ok s \<longleftrightarrow> (case disp_pax_buf s of None \<Rightarrow> True | Some b \<Rightarrow> framebuffer_ok b)"

text \<open>
  A reader of the three-line header of a binary portable pixel map, written from the format:
  the magic \<^verbatim>\<open>P6\<close> and a newline, the width in decimal, a space, the height in decimal, a
  newline, the maximum channel value in decimal, a newline; the rest is the payload.
\<close>

definition is_digit :: "u8 \<Rightarrow> bool" where
  "is_digit b \<longleftrightarrow> 48 \<le> unat b \<and> unat b \<le> 57"

definition digits_value :: "u8 list \<Rightarrow> nat" where
  "digits_value ds = foldl (\<lambda>a b. 10 * a + (unat b - 48)) 0 ds"

definition ppm_decode :: "u8 list \<Rightarrow> (nat \<times> nat \<times> nat \<times> u8 list) option" where
  "ppm_decode bs =
     (if take 3 bs \<noteq> [0x50, 0x36, 0x0A] then None
      else
        (let r1 = drop 3 bs; wd = takeWhile is_digit r1; r2 = dropWhile is_digit r1 in
         if wd = [] \<or> take 1 r2 \<noteq> [0x20] then None
         else
           (let r3 = drop 1 r2; hd = takeWhile is_digit r3; r4 = dropWhile is_digit r3 in
            if hd = [] \<or> take 1 r4 \<noteq> [0x0A] then None
            else
              (let r5 = drop 1 r4; md = takeWhile is_digit r5; r6 = dropWhile is_digit r5 in
               if md = [] \<or> take 1 r6 \<noteq> [0x0A] then None
               else Some (digits_value wd, digits_value hd, digits_value md, drop 1 r6)))))"

text \<open>The payload the spec describes for pixels \<open>a\<close> to \<open>b - 1\<close> of a buffer.\<close>

definition swapped :: "u8 list \<Rightarrow> nat \<Rightarrow> nat \<Rightarrow> u8 list" where
  "swapped px a b = concat (map (\<lambda>i. [px ! (i * 3 + 2), px ! (i * 3 + 1), px ! (i * 3)]) [a..<b])"

text \<open>
  The three ways a capture ends without a file, as the spec names them, read off the host's
  answers: no surface, a surface without a pixel buffer, a destination that cannot be opened.
\<close>

datatype capture_error = SurfaceUnavailable | PixelBufferUnavailable | DestinationOpenFailure

definition capture_failure :: "state \<Rightarrow> capture_error option" where
  "capture_failure s =
     (case disp_pax_buf s of
        None \<Rightarrow> Some SurfaceUnavailable
      | Some b \<Rightarrow>
          (case pixels b of
             None \<Rightarrow> Some PixelBufferUnavailable
           | Some px \<Rightarrow>
               if fopen_ok s (screenshot_filename (local_time s)) then None
               else Some DestinationOpenFailure))"

text \<open>
  A local time as \<^verbatim>\<open>localtime_r\<close> delivers it: every field of \<^verbatim>\<open>struct tm\<close> in the range
  the C standard gives it (the seconds reach 60 in a leap second).
\<close>

definition tm_ok :: "tm \<Rightarrow> bool" where
  "tm_ok t \<longleftrightarrow>
     0 \<le> sint (tm_sec t) \<and> sint (tm_sec t) \<le> 60
     \<and> 0 \<le> sint (tm_min t) \<and> sint (tm_min t) \<le> 59
     \<and> 0 \<le> sint (tm_hour t) \<and> sint (tm_hour t) \<le> 23
     \<and> 1 \<le> sint (tm_mday t) \<and> sint (tm_mday t) \<le> 31
     \<and> 0 \<le> sint (tm_mon t) \<and> sint (tm_mon t) \<le> 11"

text \<open>The decimal digits of a number in a field of exactly \<open>n\<close> characters.\<close>

fun fixed_dec :: "nat \<Rightarrow> nat \<Rightarrow> string" where
  "fixed_dec 0 v = []"
| "fixed_dec (Suc n) v = fixed_dec n (v div 10) @ [digit_char (v mod 10)]"

subsection \<open>An example device\<close>

text \<open>
  A display of two pixels by one, the clock at 2024-03-05 09:07:02, a card that takes every
  file, and the plugin as it is loaded.
\<close>

definition example_buf :: pax_buf where
  "example_buf = \<lparr>width = 2, height = 1, pixels = Some [1, 2, 3, 4, 5, 6]\<rparr>"

definition example_time :: tm where
  "example_time =
     \<lparr>tm_sec = 2, tm_min = 7, tm_hour = 9, tm_mday = 5, tm_mon = 2, tm_year = 124\<rparr>"

definition example_state :: state where
  "example_state =
     \<lparr>plugin_ctx = None, hook_id = - 1, logo_key_held = False,
      disp_pax_buf = Some example_buf, local_time = example_time,
      fopen_ok = (\<lambda>p. True), files = Map.empty, logged = [], calls = [], hooks = {}\<rparr>"

definition scancode_event :: "u32 \<Rightarrow> plugin_input_event" where
  "scancode_event k = \<lparr>type = PLUGIN_INPUT_EVENT_TYPE_SCANCODE, key = k\<rparr>"

section \<open>Properties\<close>

subsection \<open>Index arithmetic without wrap-around\<close>

lemma sint_add_no_wrap:
  fixes a b :: c_int
  assumes "- (2 ^ 31) \<le> sint a + sint b" "sint a + sint b < 2 ^ 31"
  shows "sint (a + b) = sint a + sint b"
proof -
  have "signed_take_bit 31 (sint a + sint b) = sint a + sint b"
    using assms by (intro signed_take_bit_int_eq_self) auto
  then show ?thesis by (simp add: sint_word_ariths)
qed

lemma sint_mult_no_wrap:
  fixes a b :: c_int
  assumes "- (2 ^ 31) \<le> sint a * sint b" "sint a * sint b < 2 ^ 31"
  shows "sint (a * b) = sint a * sint b"
proof -
  have "signed_take_bit 31 (sint a * sint b) = sint a * sint b"
    using assms by (intro signed_take_bit_int_eq_self) auto
  then show ?thesis by (simp add: sint_word_ariths)
qed

lemma sint_index:
  fixes v :: c_int
  assumes "sint v = i" "0 \<le> i" "i * 3 + 2 < 2 ^ 31"
  shows "sint (v * 3 + 0) = i * 3" "sint (v * 3 + 1) = i * 3 + 1" "sint (v * 3 + 2) = i * 3 + 2"
proof -
  have "sint (v * 3) = sint v * sint (3 :: c_int)"
    by (rule sint_mult_no_wrap) (use assms in simp_all)
  then have c: "sint (v * 3) = i * 3"
    using assms(1) by simp
  then show "sint (v * 3 + 0) = i * 3"
    by simp
  have "sint (v * 3 + 1) = sint (v * 3) + sint (1 :: c_int)"
    by (rule sint_add_no_wrap) (use assms c in simp_all)
  then show "sint (v * 3 + 1) = i * 3 + 1"
    using c by simp
  have "sint (v * 3 + 2) = sint (v * 3) + sint (2 :: c_int)"
    by (rule sint_add_no_wrap) (use assms c in simp_all)
  then show "sint (v * 3 + 2) = i * 3 + 2"
    using c by simp
qed

lemma read_pixels_at:
  assumes "0 \<le> i" "i * 3 + 2 < int (length px)"
  shows "read_pixels px (i * 3) = Inr (px ! (nat i * 3))"
    "read_pixels px (i * 3 + 1) = Inr (px ! (nat i * 3 + 1))"
    "read_pixels px (i * 3 + 2) = Inr (px ! (nat i * 3 + 2))"
  using assms by (simp_all add: read_pixels_def nat_add_distrib nat_mult_distrib)

lemma put_pixel_at:
  fixes w y x :: c_int
  assumes v: "sint (y * w + x) = i" and i0: "0 \<le> i"
    and len: "i * 3 + 2 < int (length px)" and small: "length px < 2 ^ 31"
  shows "put_pixel px w y x = Inr [px ! (nat i * 3 + 2), px ! (nat i * 3 + 1), px ! (nat i * 3)]"
proof -
  have top: "i * 3 + 2 < 2 ^ 31"
    using len small by simp
  note ix = sint_index [OF v i0 top]
  note rd = read_pixels_at [OF i0 len]
  show ?thesis
    unfolding put_pixel_def Let_def ix rd by simp
qed

lemma sint_pixel_number:
  fixes w y x :: c_int
  assumes y: "0 \<le> sint y" and x: "0 \<le> sint x" and xw: "sint x < sint w"
    and top: "sint y * sint w + sint x < 2 ^ 31"
  shows "sint (y * w + x) = sint y * sint w + sint x"
proof -
  have yw0: "0 \<le> sint y * sint w"
    using y x xw by simp
  have a: "sint (y * w) = sint y * sint w"
    by (rule sint_mult_no_wrap) (use yw0 x top in simp_all)
  have "sint (y * w + x) = sint (y * w) + sint x"
    by (rule sint_add_no_wrap) (use a yw0 x top in simp_all)
  then show ?thesis
    using a by simp
qed

lemma sint_succ_below:
  fixes x w :: c_int
  assumes "sint x < sint w"
  shows "sint (x + 1) = sint x + 1"
proof -
  have "sint w < 2 ^ 31" "- (2 ^ 31) \<le> sint x"
    using sint_lt [of w] sint_ge [of x] by simp_all
  then have "sint (x + 1) = sint x + sint (1 :: c_int)"
    by (intro sint_add_no_wrap) (use assms in simp_all)
  then show ?thesis by simp
qed

lemma swapped_empty: "swapped px a a = []"
  by (simp add: swapped_def)

lemma swapped_step:
  "a < b \<Longrightarrow> swapped px a b = [px ! (a * 3 + 2), px ! (a * 3 + 1), px ! (a * 3)] @ swapped px (Suc a) b"
  by (simp add: swapped_def upt_conv_Cons)

lemma swapped_append:
  "a \<le> b \<Longrightarrow> b \<le> c \<Longrightarrow> swapped px a b @ swapped px b c = swapped px a c"
proof -
  assume "a \<le> b" "b \<le> c"
  then have "[a..<c] = [a..<b] @ [b..<c]"
    by (metis le_Suc_ex upt_add_eq_append)
  then show ?thesis
    by (simp add: swapped_def)
qed

lemma put_row_ok:
  fixes w y x :: c_int
  assumes y: "0 \<le> sint y" and x: "0 \<le> sint x" and xw: "sint x \<le> sint w"
    and len: "(sint y * sint w + sint w) * 3 \<le> int (length px)"
    and small: "length px < 2 ^ 31"
  shows "put_row px w y x out =
    Inr (out @ swapped px (nat (sint y * sint w + sint x)) (nat (sint y * sint w + sint w)))"
  using x xw
proof (induction "nat (sint w - sint x)" arbitrary: x out)
  case 0
  then have "sint x = sint w" by simp
  then show ?case
    by (simp add: put_row.simps [of px w y x] word_sless_alt swapped_empty)
next
  case (Suc n)
  then have lt: "sint x < sint w" by linarith
  define i where "i = sint y * sint w + sint x"
  have yw0: "0 \<le> sint y * sint w"
    using y Suc.prems by simp
  have i0: "0 \<le> i"
    using yw0 Suc.prems by (simp add: i_def)
  have ilt: "i < sint y * sint w + sint w"
    using lt by (simp add: i_def)
  have ilen: "i * 3 + 2 < int (length px)"
  proof -
    have "k < m \<Longrightarrow> m * 3 \<le> l \<Longrightarrow> k * 3 + 2 < l" for k m l :: int
      by arith
    from this [OF ilt len] show ?thesis .
  qed
  have v: "sint (y * w + x) = i"
    unfolding i_def
    by (rule sint_pixel_number) (use y Suc.prems lt ilen small in \<open>simp_all add: i_def\<close>)
  have px1: "put_pixel px w y x = Inr [px ! (nat i * 3 + 2), px ! (nat i * 3 + 1), px ! (nat i * 3)]"
    by (rule put_pixel_at [OF v i0 ilen small])
  have sx: "sint (x + 1) = sint x + 1"
    by (rule sint_succ_below [OF lt])
  have ih: "put_row px w y (x + 1) out' =
      Inr (out' @ swapped px (nat (sint y * sint w + sint (x + 1))) (nat (sint y * sint w + sint w)))"
    for out'
    by (rule Suc.hyps(1)) (use Suc.hyps(2) Suc.prems lt sx in simp_all)
  have nx: "nat (sint y * sint w + sint (x + 1)) = Suc (nat i)"
    using i0 by (simp add: sx i_def nat_add_distrib)
  have st: "swapped px (nat i) (nat (sint y * sint w + sint w)) =
      [px ! (nat i * 3 + 2), px ! (nat i * 3 + 1), px ! (nat i * 3)]
        @ swapped px (Suc (nat i)) (nat (sint y * sint w + sint w))"
    by (rule swapped_step) (use i0 ilt in simp)
  have "put_row px w y x out =
      put_row px w y (x + 1) (out @ [px ! (nat i * 3 + 2), px ! (nat i * 3 + 1), px ! (nat i * 3)])"
    using lt by (simp add: put_row.simps [of px w y x] word_sless_alt px1)
  then show ?case
    by (simp add: ih nx st flip: i_def)
qed

lemma put_rows_ok:
  fixes w h y :: c_int
  assumes w: "0 < sint w" and y: "0 \<le> sint y" and yh: "sint y \<le> sint h"
    and len: "sint h * sint w * 3 \<le> int (length px)"
    and small: "length px < 2 ^ 31"
  shows "put_rows px w h y out =
    Inr (out @ swapped px (nat (sint y * sint w)) (nat (sint h * sint w)))"
  using y yh
proof (induction "nat (sint h - sint y)" arbitrary: y out)
  case 0
  then have "sint y = sint h" by simp
  then show ?case
    by (simp add: put_rows.simps [of px w h y] word_sless_alt swapped_empty)
next
  case (Suc n)
  then have lt: "sint y < sint h" by linarith
  have sy: "sint (y + 1) = sint y + 1"
    by (rule sint_succ_below [OF lt])
  have le: "sint y * sint w + sint w \<le> sint h * sint w"
  proof -
    have "(sint y + 1) * sint w \<le> sint h * sint w"
      using lt w by (intro mult_right_mono) simp_all
    then show ?thesis by (simp add: algebra_simps)
  qed
  have rowlen: "(sint y * sint w + sint w) * 3 \<le> int (length px)"
  proof -
    have "k \<le> m \<Longrightarrow> m * 3 \<le> l \<Longrightarrow> k * 3 \<le> l" for k m l :: int
      by arith
    from this [OF le len] show ?thesis .
  qed
  have row: "put_row px w y 0 out =
      Inr (out @ swapped px (nat (sint y * sint w)) (nat (sint y * sint w + sint w)))"
    using put_row_ok [of y 0 w px out] Suc.prems w rowlen small by simp
  have ih: "put_rows px w h (y + 1) out' =
      Inr (out' @ swapped px (nat (sint (y + 1) * sint w)) (nat (sint h * sint w)))" for out'
    by (rule Suc.hyps(1)) (use Suc.hyps(2) Suc.prems lt sy in simp_all)
  have nx: "sint (y + 1) * sint w = sint y * sint w + sint w"
    unfolding sy by (simp add: algebra_simps)
  have yw0: "0 \<le> sint y * sint w"
    using Suc.prems w by simp
  have app: "swapped px (nat (sint y * sint w)) (nat (sint y * sint w + sint w))
      @ swapped px (nat (sint y * sint w + sint w)) (nat (sint h * sint w))
      = swapped px (nat (sint y * sint w)) (nat (sint h * sint w))"
    by (rule swapped_append) (use yw0 w le in simp_all)
  have "put_rows px w h y out =
      put_rows px w h (y + 1) (out @ swapped px (nat (sint y * sint w)) (nat (sint y * sint w + sint w)))"
    using lt by (simp add: put_rows.simps [of px w h y] word_sless_alt row)
  then show ?case
    by (simp add: ih nx app)
qed

lemma put_rows_framebuffer:
  assumes "framebuffer_ok b" "pixels b = Some px"
  shows "put_rows px (width b) (height b) 0 out =
    Inr (out @ swapped px 0 (nat (sint (width b) * sint (height b))))"
proof -
  from assms have w: "0 < sint (width b)" and h: "0 < sint (height b)"
    and len: "int (length px) = sint (width b) * sint (height b) * 3"
    and small: "length px < 2 ^ 31"
    by (simp_all add: framebuffer_ok_def)
  have "put_rows px (width b) (height b) 0 out =
      Inr (out @ swapped px (nat (sint (0 :: c_int) * sint (width b)))
            (nat (sint (height b) * sint (width b))))"
    by (rule put_rows_ok) (use w h len small in \<open>simp_all add: mult.commute\<close>)
  then show ?thesis
    by (simp add: mult.commute)
qed

subsection \<open>The chord detector\<close>

lemma captures_host_called:
  "captures (host_called c s) = (if c = DISP_GET_PAX_BUF then Suc (captures s) else captures s)"
  by (simp add: captures_def host_called_def)

lemma captures_log [simp]:
  "captures (asp_log_info tag msg s) = captures s"
  "captures (asp_log_error tag msg s) = captures s"
  by (simp_all add: captures_def asp_log_info_def asp_log_error_def)

lemma save_screenshot_returns:
  assumes "display_ok s"
  shows "\<exists>s'. save_screenshot s = Inr s' \<and> captures s' = Suc (captures s)"
proof (cases "disp_pax_buf s")
  case None
  then show ?thesis
    by (simp add: save_screenshot_def Let_def host_called_def asp_log_error_def captures_def)
next
  case (Some b)
  note b = this
  show ?thesis
  proof (cases "pixels b")
    case None
    with b show ?thesis
      by (simp add: save_screenshot_def Let_def host_called_def asp_log_error_def captures_def)
  next
    case (Some px)
    have ok: "framebuffer_ok b"
      using assms b by (simp add: display_ok_def)
    show ?thesis
      using b Some put_rows_framebuffer [OF ok Some]
      by (simp add: save_screenshot_def Let_def host_called_def asp_log_error_def
          asp_log_info_def captures_def)
  qed
qed

lemmas scancode_defs =
  BSP_INPUT_SCANCODE_P_def BSP_INPUT_SCANCODE_LEFTMETA_def BSP_INPUT_SCANCODE_RIGHTMETA_def
  BSP_INPUT_SCANCODE_LEFTMETA_REL_def BSP_INPUT_SCANCODE_RIGHTMETA_REL_def

lemma callback_modifier_press:
  "modifier_press e \<Longrightarrow> input_hook_callback e s = Inr (False, s\<lparr>logo_key_held := True\<rparr>)"
  by (auto simp: modifier_press_def input_hook_callback_def)

lemma callback_modifier_release:
  "modifier_release e \<Longrightarrow> input_hook_callback e s = Inr (False, s\<lparr>logo_key_held := False\<rparr>)"
  by (auto simp: modifier_release_def input_hook_callback_def scancode_defs)

lemma callback_trigger_held:
  assumes "trigger_press e" "logo_key_held s"
  shows "input_hook_callback e s =
    (case save_screenshot (asp_log_info ''screenshot'' ''LOGO+P detected, taking screenshot...'' s) of
       Inl f \<Rightarrow> Inl f
     | Inr s' \<Rightarrow> Inr (True, s'\<lparr>logo_key_held := False\<rparr>))"
  using assms by (simp add: trigger_press_def input_hook_callback_def scancode_defs)

lemma callback_otherwise:
  assumes "\<not> modifier_press e" "\<not> modifier_release e" "\<not> (trigger_press e \<and> logo_key_held s)"
  shows "input_hook_callback e s = Inr (False, s)"
  using assms
  by (auto simp: modifier_press_def modifier_release_def trigger_press_def input_hook_callback_def)

lemma display_ok_log [simp]:
  "display_ok (asp_log_info tag msg s) = display_ok s"
  "display_ok (s\<lparr>logo_key_held := v\<rparr>) = display_ok s"
  by (simp_all add: display_ok_def asp_log_info_def)

lemma callback_fires:
  assumes "trigger_press e" "logo_key_held s" "display_ok s"
  shows "\<exists>s'. input_hook_callback e s = Inr (True, s') \<and> captures s' = Suc (captures s)
    \<and> \<not> logo_key_held s'"
proof -
  obtain s1 where s1: "save_screenshot (asp_log_info ''screenshot'' ''LOGO+P detected, taking screenshot...'' s) = Inr s1"
    and c1: "captures s1 = Suc (captures s)"
    using save_screenshot_returns [of "asp_log_info ''screenshot'' ''LOGO+P detected, taking screenshot...'' s"] assms(3)
    by auto
  show ?thesis
    using assms(1,2) s1 c1 by (simp add: callback_trigger_held captures_def)
qed

lemma example_facts:
  "\<not> logo_key_held example_state" "display_ok example_state"
  "modifier_press (scancode_event BSP_INPUT_SCANCODE_LEFTMETA)"
  "modifier_press (scancode_event BSP_INPUT_SCANCODE_RIGHTMETA)"
  "modifier_release (scancode_event BSP_INPUT_SCANCODE_LEFTMETA_REL)"
  "trigger_press (scancode_event BSP_INPUT_SCANCODE_P)"
  "\<not> trigger_press (scancode_event BSP_INPUT_SCANCODE_LEFTMETA)"
  "\<not> trigger_press (scancode_event BSP_INPUT_SCANCODE_LEFTMETA_REL)"
  "\<not> modifier_press (scancode_event BSP_INPUT_SCANCODE_LEFTMETA_REL)"
  by (simp_all add: example_state_def display_ok_def framebuffer_ok_def example_buf_def
      modifier_press_def modifier_release_def trigger_press_def scancode_event_def scancode_defs)

text \<open>
  C1. From a state in which the modifier is not held, the events modifier-press,
  trigger-press start exactly one capture, and the modifier is not held afterwards. Both
  modifier keys qualify; the display keeps the framebuffer view of the data model.
\<close>

theorem chord_fires_once:
  assumes "\<not> logo_key_held s" "display_ok s" "modifier_press m" "trigger_press t"
  shows "\<exists>s'. run [m, t] s = Inr s' \<and> captures s' = Suc (captures s) \<and> \<not> logo_key_held s'"
proof -
  obtain s' where "input_hook_callback t (s\<lparr>logo_key_held := True\<rparr>) = Inr (True, s')"
    "captures s' = Suc (captures (s\<lparr>logo_key_held := True\<rparr>))" "\<not> logo_key_held s'"
    using callback_fires [of t "s\<lparr>logo_key_held := True\<rparr>"] assms by auto
  then show ?thesis
    using assms(3) by (simp add: callback_modifier_press captures_def)
qed

theorem chord_fires_once_witness:
  "\<not> logo_key_held example_state \<and> display_ok example_state
   \<and> modifier_press (scancode_event BSP_INPUT_SCANCODE_LEFTMETA)
   \<and> trigger_press (scancode_event BSP_INPUT_SCANCODE_P)
   \<and> (\<exists>s'. run [scancode_event BSP_INPUT_SCANCODE_LEFTMETA, scancode_event BSP_INPUT_SCANCODE_P]
              example_state = Inr s'
         \<and> captures s' = Suc (captures example_state) \<and> \<not> logo_key_held s')"
  using chord_fires_once [OF example_facts(1,2,3,6)] example_facts by blast

text \<open>
  C3. From a state in which the modifier is not held, the events modifier-press,
  trigger-press, trigger-press start exactly one capture: after the first trigger-press the
  modifier is not held, so the hook passes the second one on and leaves the state as it is.
\<close>

theorem repeat_requires_repress:
  assumes "\<not> logo_key_held s" "display_ok s" "modifier_press m" "trigger_press t1" "trigger_press t2"
  shows "\<exists>s1 s'. run [m, t1] s = Inr s1 \<and> \<not> logo_key_held s1
    \<and> input_hook_callback t2 s1 = Inr (False, s1)
    \<and> run [m, t1, t2] s = Inr s' \<and> captures s' = Suc (captures s)"
proof -
  obtain s1 where s1: "input_hook_callback t1 (s\<lparr>logo_key_held := True\<rparr>) = Inr (True, s1)"
    "captures s1 = Suc (captures (s\<lparr>logo_key_held := True\<rparr>))" "\<not> logo_key_held s1"
    using callback_fires [of t1 "s\<lparr>logo_key_held := True\<rparr>"] assms by auto
  have t2: "input_hook_callback t2 s1 = Inr (False, s1)"
    using assms(5) s1(3)
    by (intro callback_otherwise) (auto simp: modifier_press_def modifier_release_def trigger_press_def scancode_defs)
  show ?thesis
    using assms(3) s1 t2 by (simp add: callback_modifier_press captures_def)
qed

theorem repeat_requires_repress_witness:
  "\<not> logo_key_held example_state \<and> display_ok example_state
   \<and> modifier_press (scancode_event BSP_INPUT_SCANCODE_RIGHTMETA)
   \<and> trigger_press (scancode_event BSP_INPUT_SCANCODE_P)
   \<and> (\<exists>s1 s'. run [scancode_event BSP_INPUT_SCANCODE_RIGHTMETA,
                      scancode_event BSP_INPUT_SCANCODE_P] example_state = Inr s1
         \<and> \<not> logo_key_held s1
         \<and> input_hook_callback (scancode_event BSP_INPUT_SCANCODE_P) s1 = Inr (False, s1)
         \<and> run [scancode_event BSP_INPUT_SCANCODE_RIGHTMETA, scancode_event BSP_INPUT_SCANCODE_P,
                 scancode_event BSP_INPUT_SCANCODE_P] example_state = Inr s'
         \<and> captures s' = Suc (captures example_state))"
  using repeat_requires_repress [OF example_facts(1,2,4,6,6)] example_facts by blast

lemma run_snoc:
  "run (es @ [e]) s =
    (case run es s of
       Inl f \<Rightarrow> Inl f
     | Inr s' \<Rightarrow> (case input_hook_callback e s' of Inl f \<Rightarrow> Inl f | Inr (handled, s'') \<Rightarrow> Inr s''))"
  by (induction es arbitrary: s) (auto split: sum.splits)

lemma quiet_run:
  assumes "\<not> logo_key_held s"
    and "\<forall>j<length es. trigger_press (es ! j) \<longrightarrow>
          \<not> (\<exists>i<j. modifier_press (es ! i) \<and> (\<forall>k. i < k \<and> k < j \<longrightarrow> \<not> modifier_release (es ! k)))"
  shows "\<exists>v. run es s = Inr (s\<lparr>logo_key_held := v\<rparr>)
    \<and> (v \<longrightarrow> (\<exists>i<length es. modifier_press (es ! i)
            \<and> (\<forall>k. i < k \<and> k < length es \<longrightarrow> \<not> modifier_release (es ! k))))"
  using assms(2)
proof (induction es rule: rev_induct)
  case Nil
  then show ?case
    using assms(1) by (intro exI [of _ False]) simp
next
  case (snoc e es)
  have hyp: "\<forall>j<length es. trigger_press (es ! j) \<longrightarrow>
      \<not> (\<exists>i<j. modifier_press (es ! i) \<and> (\<forall>k. i < k \<and> k < j \<longrightarrow> \<not> modifier_release (es ! k)))"
  proof (intro allI impI)
    fix j assume j: "j < length es" and t: "trigger_press (es ! j)"
    have "\<not> (\<exists>i<j. modifier_press ((es @ [e]) ! i)
        \<and> (\<forall>k. i < k \<and> k < j \<longrightarrow> \<not> modifier_release ((es @ [e]) ! k)))"
      using snoc.prems j t by (simp add: nth_append)
    then show "\<not> (\<exists>i<j. modifier_press (es ! i)
        \<and> (\<forall>k. i < k \<and> k < j \<longrightarrow> \<not> modifier_release (es ! k)))"
      using j by (auto simp: nth_append)
  qed
  from snoc.IH [OF hyp] obtain v where
    r: "run es s = Inr (s\<lparr>logo_key_held := v\<rparr>)"
    and armed: "v \<longrightarrow> (\<exists>i<length es. modifier_press (es ! i)
            \<and> (\<forall>k. i < k \<and> k < length es \<longrightarrow> \<not> modifier_release (es ! k)))"
    by blast
  let ?s = "s\<lparr>logo_key_held := v\<rparr>"
  consider (press) "modifier_press e" | (release) "modifier_release e"
    | (fire) "\<not> modifier_press e" "\<not> modifier_release e" "trigger_press e" "v"
    | (other) "\<not> modifier_press e" "\<not> modifier_release e" "\<not> (trigger_press e \<and> v)"
    by blast
  then show ?case
  proof cases
    case press
    have "run (es @ [e]) s = Inr (s\<lparr>logo_key_held := True\<rparr>)"
      by (simp add: run_snoc r callback_modifier_press [OF press])
    moreover have "\<exists>i<length (es @ [e]). modifier_press ((es @ [e]) ! i)
        \<and> (\<forall>k. i < k \<and> k < length (es @ [e]) \<longrightarrow> \<not> modifier_release ((es @ [e]) ! k))"
      using press by (intro exI [of _ "length es"]) auto
    ultimately show ?thesis by blast
  next
    case release
    have "run (es @ [e]) s = Inr (s\<lparr>logo_key_held := False\<rparr>)"
      by (simp add: run_snoc r callback_modifier_release [OF release])
    then show ?thesis by blast
  next
    case fire
    from armed fire(4) obtain i where i: "i < length es" "modifier_press (es ! i)"
      "\<forall>k. i < k \<and> k < length es \<longrightarrow> \<not> modifier_release (es ! k)"
      by blast
    have "\<exists>i<length es. modifier_press ((es @ [e]) ! i)
        \<and> (\<forall>k. i < k \<and> k < length es \<longrightarrow> \<not> modifier_release ((es @ [e]) ! k))"
      using i by (intro exI [of _ i]) (simp add: nth_append)
    moreover have "trigger_press ((es @ [e]) ! length es)"
      using fire(3) by simp
    ultimately have False
      using snoc.prems by (metis length_append_singleton lessI)
    then show ?thesis ..
  next
    case other
    have cb: "input_hook_callback e ?s = Inr (False, ?s)"
      using other by (intro callback_otherwise) simp_all
    have "run (es @ [e]) s = Inr ?s"
      by (simp add: run_snoc r cb)
    moreover have "v \<longrightarrow> (\<exists>i<length (es @ [e]). modifier_press ((es @ [e]) ! i)
        \<and> (\<forall>k. i < k \<and> k < length (es @ [e]) \<longrightarrow> \<not> modifier_release ((es @ [e]) ! k)))"
    proof
      assume v
      with armed obtain i where i: "i < length es" "modifier_press (es ! i)"
        "\<forall>k. i < k \<and> k < length es \<longrightarrow> \<not> modifier_release (es ! k)"
        by blast
      have "\<forall>k. i < k \<and> k < length (es @ [e]) \<longrightarrow> \<not> modifier_release ((es @ [e]) ! k)"
        using i(3) other(2) by (auto simp: nth_append less_Suc_eq)
      then show "\<exists>i<length (es @ [e]). modifier_press ((es @ [e]) ! i)
        \<and> (\<forall>k. i < k \<and> k < length (es @ [e]) \<longrightarrow> \<not> modifier_release ((es @ [e]) ! k))"
        using i(1,2) by (intro exI [of _ i]) (simp add: nth_append)
    qed
    ultimately show ?thesis by blast
  qed
qed

text \<open>
  C4. From a state in which the modifier is not held, a sequence of events in which no
  trigger-press comes after a modifier-press without a modifier-release between the two
  starts no capture: the run makes no call into the host and leaves every file as it was.
\<close>

theorem no_false_trigger:
  assumes "\<not> logo_key_held s"
    and "\<forall>j<length es. trigger_press (es ! j) \<longrightarrow>
          \<not> (\<exists>i<j. modifier_press (es ! i) \<and> (\<forall>k. i < k \<and> k < j \<longrightarrow> \<not> modifier_release (es ! k)))"
  shows "\<exists>s'. run es s = Inr s' \<and> captures s' = captures s \<and> calls s' = calls s
    \<and> files s' = files s"
proof -
  from quiet_run [OF assms] obtain v where "run es s = Inr (s\<lparr>logo_key_held := v\<rparr>)"
    by blast
  then show ?thesis
    by (simp add: captures_def)
qed

theorem no_false_trigger_witness:
  "\<exists>s'. run [scancode_event BSP_INPUT_SCANCODE_LEFTMETA,
              scancode_event BSP_INPUT_SCANCODE_LEFTMETA_REL,
              scancode_event BSP_INPUT_SCANCODE_P] example_state = Inr s'
     \<and> captures s' = captures example_state \<and> calls s' = calls example_state
     \<and> files s' = files example_state"
proof -
  let ?es = "[scancode_event BSP_INPUT_SCANCODE_LEFTMETA,
              scancode_event BSP_INPUT_SCANCODE_LEFTMETA_REL,
              scancode_event BSP_INPUT_SCANCODE_P]"
  have "\<forall>j<length ?es. trigger_press (?es ! j) \<longrightarrow>
      \<not> (\<exists>i<j. modifier_press (?es ! i) \<and> (\<forall>k. i < k \<and> k < j \<longrightarrow> \<not> modifier_release (?es ! k)))"
  proof (intro allI impI notI)
    fix j assume "j < length ?es" "trigger_press (?es ! j)"
      "\<exists>i<j. modifier_press (?es ! i) \<and> (\<forall>k. i < k \<and> k < j \<longrightarrow> \<not> modifier_release (?es ! k))"
    then have j: "j = 2"
      using example_facts(7,8) by (auto simp: less_Suc_eq numeral_3_eq_3 nth_Cons')
    from \<open>\<exists>i<j. _\<close> obtain i where i: "i < 2" "modifier_press (?es ! i)"
      "\<forall>k. i < k \<and> k < 2 \<longrightarrow> \<not> modifier_release (?es ! k)"
      unfolding j by blast
    have "i = 0"
      using i(1,2) example_facts(9) by (auto simp: less_Suc_eq numeral_2_eq_2 nth_Cons')
    with i(3) have "\<not> modifier_release (?es ! 1)"
      by (auto dest: spec [of _ 1])
    then show False
      using example_facts(5) by simp
  qed
  from no_false_trigger [OF example_facts(1) this] show ?thesis .
qed

text \<open>
  C5. One event. A trigger-press while the modifier is held is reported handled. A
  modifier-press and a modifier-release are reported not handled (and set and clear the
  modifier). An event that is not a scancode event, a scancode event with any other code, and
  a trigger-press while the modifier is not held, is reported not handled and leaves the
  whole state, the modifier with it, as it was.
\<close>


theorem consumption_semantics:
  "(trigger_press e \<and> logo_key_held s \<and> display_ok s \<longrightarrow>
      (\<exists>s'. input_hook_callback e s = Inr (True, s')))
   \<and> (modifier_press e \<longrightarrow>
      input_hook_callback e s = Inr (False, s\<lparr>logo_key_held := True\<rparr>))
   \<and> (modifier_release e \<longrightarrow>
      input_hook_callback e s = Inr (False, s\<lparr>logo_key_held := False\<rparr>))
   \<and> (type e \<noteq> PLUGIN_INPUT_EVENT_TYPE_SCANCODE \<longrightarrow> input_hook_callback e s = Inr (False, s))
   \<and> (type e = PLUGIN_INPUT_EVENT_TYPE_SCANCODE
        \<and> key e \<notin> {BSP_INPUT_SCANCODE_P, BSP_INPUT_SCANCODE_LEFTMETA, BSP_INPUT_SCANCODE_RIGHTMETA,
                     BSP_INPUT_SCANCODE_LEFTMETA_REL, BSP_INPUT_SCANCODE_RIGHTMETA_REL} \<longrightarrow>
      input_hook_callback e s = Inr (False, s))
   \<and> (trigger_press e \<and> \<not> logo_key_held s \<longrightarrow> input_hook_callback e s = Inr (False, s))"
proof (intro conjI impI)
  assume "trigger_press e \<and> logo_key_held s \<and> display_ok s"
  then show "\<exists>s'. input_hook_callback e s = Inr (True, s')"
    using callback_fires [of e s] by blast
next
  assume "modifier_press e"
  then show "input_hook_callback e s = Inr (False, s\<lparr>logo_key_held := True\<rparr>)"
    by (rule callback_modifier_press)
next
  assume "modifier_release e"
  then show "input_hook_callback e s = Inr (False, s\<lparr>logo_key_held := False\<rparr>)"
    by (rule callback_modifier_release)
next
  assume "type e \<noteq> PLUGIN_INPUT_EVENT_TYPE_SCANCODE"
  then show "input_hook_callback e s = Inr (False, s)"
    by (simp add: input_hook_callback_def)
next
  assume "type e = PLUGIN_INPUT_EVENT_TYPE_SCANCODE
        \<and> key e \<notin> {BSP_INPUT_SCANCODE_P, BSP_INPUT_SCANCODE_LEFTMETA, BSP_INPUT_SCANCODE_RIGHTMETA,
                     BSP_INPUT_SCANCODE_LEFTMETA_REL, BSP_INPUT_SCANCODE_RIGHTMETA_REL}"
  then show "input_hook_callback e s = Inr (False, s)"
    by (simp add: input_hook_callback_def)
next
  assume "trigger_press e \<and> \<not> logo_key_held s"
  then show "input_hook_callback e s = Inr (False, s)"
    by (intro callback_otherwise)
      (auto simp: modifier_press_def modifier_release_def trigger_press_def scancode_defs)
qed

theorem consumption_semantics_witness:
  "(\<exists>s'. input_hook_callback (scancode_event BSP_INPUT_SCANCODE_P)
            (example_state\<lparr>logo_key_held := True\<rparr>) = Inr (True, s'))
   \<and> input_hook_callback (scancode_event BSP_INPUT_SCANCODE_LEFTMETA) example_state
       = Inr (False, example_state\<lparr>logo_key_held := True\<rparr>)
   \<and> input_hook_callback (scancode_event BSP_INPUT_SCANCODE_LEFTMETA_REL) example_state
       = Inr (False, example_state\<lparr>logo_key_held := False\<rparr>)
   \<and> input_hook_callback \<lparr>type = PLUGIN_INPUT_EVENT_TYPE_OTHER 0, key = BSP_INPUT_SCANCODE_P\<rparr>
        (example_state\<lparr>logo_key_held := True\<rparr>)
       = Inr (False, example_state\<lparr>logo_key_held := True\<rparr>)
   \<and> input_hook_callback (scancode_event 0x99) (example_state\<lparr>logo_key_held := True\<rparr>)
       = Inr (False, example_state\<lparr>logo_key_held := True\<rparr>)
   \<and> input_hook_callback (scancode_event BSP_INPUT_SCANCODE_P) example_state
       = Inr (False, example_state)"
proof -
  have held: "logo_key_held (example_state\<lparr>logo_key_held := True\<rparr>)"
    "display_ok (example_state\<lparr>logo_key_held := True\<rparr>)"
    using example_facts(2) by simp_all
  have other: "type (scancode_event 0x99) = PLUGIN_INPUT_EVENT_TYPE_SCANCODE
      \<and> key (scancode_event 0x99) \<notin> {BSP_INPUT_SCANCODE_P, BSP_INPUT_SCANCODE_LEFTMETA,
            BSP_INPUT_SCANCODE_RIGHTMETA, BSP_INPUT_SCANCODE_LEFTMETA_REL,
            BSP_INPUT_SCANCODE_RIGHTMETA_REL}"
    by (simp add: scancode_event_def scancode_defs)
  show ?thesis
    using consumption_semantics [of "scancode_event BSP_INPUT_SCANCODE_P"
        "example_state\<lparr>logo_key_held := True\<rparr>"]
      consumption_semantics [of "scancode_event BSP_INPUT_SCANCODE_LEFTMETA" example_state]
      consumption_semantics [of "scancode_event BSP_INPUT_SCANCODE_LEFTMETA_REL" example_state]
      consumption_semantics [of "\<lparr>type = PLUGIN_INPUT_EVENT_TYPE_OTHER 0, key = BSP_INPUT_SCANCODE_P\<rparr>"
        "example_state\<lparr>logo_key_held := True\<rparr>"]
      consumption_semantics [of "scancode_event 0x99" "example_state\<lparr>logo_key_held := True\<rparr>"]
      consumption_semantics [of "scancode_event BSP_INPUT_SCANCODE_P" example_state]
      held other example_facts(1,3,5,6)
    by simp
qed

subsection \<open>Failed captures\<close>

lemma capture_failure_iff:
  "capture_failure s = Some SurfaceUnavailable \<longleftrightarrow> disp_pax_buf s = None"
  "capture_failure s = Some PixelBufferUnavailable \<longleftrightarrow>
     (\<exists>b. disp_pax_buf s = Some b \<and> pixels b = None)"
  "capture_failure s = Some DestinationOpenFailure \<longleftrightarrow>
     (\<exists>b px. disp_pax_buf s = Some b \<and> pixels b = Some px
        \<and> \<not> fopen_ok s (screenshot_filename (local_time s)))"
  "capture_failure s = None \<longleftrightarrow>
     (\<exists>b px. disp_pax_buf s = Some b \<and> pixels b = Some px
        \<and> fopen_ok s (screenshot_filename (local_time s)))"
  by (auto simp: capture_failure_def split: option.splits)

lemma save_screenshot_no_surface:
  assumes "capture_failure s = Some SurfaceUnavailable"
  shows "save_screenshot s =
    Inr (s\<lparr>logged := logged s @ [(LOG_ERROR, ''screenshot'', ''Failed to get PAX buffer'')],
           calls := calls s @ [DISP_GET_PAX_BUF]\<rparr>)"
proof -
  from assms have "disp_pax_buf s = None"
    by (simp add: capture_failure_iff)
  then show ?thesis
    by (simp add: save_screenshot_def host_called_def asp_log_error_def)
qed

lemma save_screenshot_no_pixels:
  assumes "capture_failure s = Some PixelBufferUnavailable"
  shows "save_screenshot s =
    Inr (s\<lparr>logged := logged s @ [(LOG_ERROR, ''screenshot'', ''Failed to get pixel data'')],
           calls := calls s @ [DISP_GET_PAX_BUF, PAX_BUF_GET_PIXELS]\<rparr>)"
proof -
  from assms obtain b where "disp_pax_buf s = Some b" "pixels b = None"
    by (auto simp: capture_failure_iff)
  then show ?thesis
    by (simp add: save_screenshot_def host_called_def asp_log_error_def Let_def)
qed

lemma save_screenshot_no_file:
  assumes "capture_failure s = Some DestinationOpenFailure"
  shows "\<exists>b. disp_pax_buf s = Some b \<and> save_screenshot s =
    Inr (s\<lparr>logged := logged s @ [(LOG_INFO, ''screenshot'',
                ''Saving screenshot to '' @ screenshot_filename (local_time s) @ '' (''
                  @ fmt_d (sint (width b)) @ ''x'' @ fmt_d (sint (height b)) @ '')''),
              (LOG_ERROR, ''screenshot'', ''Failed to open file '' @ screenshot_filename (local_time s))],
           calls := calls s @ [DISP_GET_PAX_BUF, PAX_BUF_GET_PIXELS,
              FOPEN (screenshot_filename (local_time s))]\<rparr>)"
proof -
  from assms obtain b px where "disp_pax_buf s = Some b" "pixels b = Some px"
    "\<not> fopen_ok s (screenshot_filename (local_time s))"
    by (auto simp: capture_failure_iff)
  then show ?thesis
    by (simp add: save_screenshot_def host_called_def asp_log_error_def asp_log_info_def Let_def)
qed

lemma example_failures:
  "capture_failure (example_state\<lparr>disp_pax_buf := None\<rparr>) = Some SurfaceUnavailable"
  "capture_failure (example_state\<lparr>disp_pax_buf := Some (example_buf\<lparr>pixels := None\<rparr>)\<rparr>)
     = Some PixelBufferUnavailable"
  "capture_failure (example_state\<lparr>fopen_ok := (\<lambda>p. False)\<rparr>) = Some DestinationOpenFailure"
  by (simp_all add: capture_failure_def example_state_def example_buf_def)

text \<open>
  C7. When the display has no surface or the surface has no pixel buffer, the capture returns
  with no file opened: no call of \<^verbatim>\<open>fopen\<close> is made, the files are as before, an error is
  logged, and nothing but the log and the record of calls has changed.
\<close>


theorem failure_leaves_no_file:
  assumes "capture_failure s = Some SurfaceUnavailable
    \<or> capture_failure s = Some PixelBufferUnavailable"
  shows "\<exists>s' cs msg. save_screenshot s = Inr s'
    \<and> files s' = files s
    \<and> calls s' = calls s @ cs \<and> (\<forall>p. FOPEN p \<notin> set cs)
    \<and> logged s' = logged s @ [(LOG_ERROR, ''screenshot'', msg)]
    \<and> s' = s\<lparr>logged := logged s', calls := calls s'\<rparr>"
  using assms
proof
  assume "capture_failure s = Some SurfaceUnavailable"
  from save_screenshot_no_surface [OF this] show ?thesis
    by simp
next
  assume "capture_failure s = Some PixelBufferUnavailable"
  from save_screenshot_no_pixels [OF this] show ?thesis
    by simp
qed

theorem failure_leaves_no_file_witness:
  "(\<exists>s' cs msg. save_screenshot (example_state\<lparr>disp_pax_buf := None\<rparr>) = Inr s'
      \<and> files s' = files (example_state\<lparr>disp_pax_buf := None\<rparr>)
      \<and> calls s' = calls (example_state\<lparr>disp_pax_buf := None\<rparr>) @ cs
      \<and> (\<forall>p. FOPEN p \<notin> set cs)
      \<and> logged s' = logged (example_state\<lparr>disp_pax_buf := None\<rparr>) @ [(LOG_ERROR, ''screenshot'', msg)]
      \<and> s' = example_state\<lparr>disp_pax_buf := None, logged := logged s', calls := calls s'\<rparr>)
   \<and> (\<exists>s' cs msg.
        save_screenshot (example_state\<lparr>disp_pax_buf := Some (example_buf\<lparr>pixels := None\<rparr>)\<rparr>) = Inr s'
      \<and> files s' = files (example_state\<lparr>disp_pax_buf := Some (example_buf\<lparr>pixels := None\<rparr>)\<rparr>)
      \<and> calls s' = calls (example_state\<lparr>disp_pax_buf := Some (example_buf\<lparr>pixels := None\<rparr>)\<rparr>) @ cs
      \<and> (\<forall>p. FOPEN p \<notin> set cs))"
  using failure_leaves_no_file [of "example_state\<lparr>disp_pax_buf := None\<rparr>"]
    failure_leaves_no_file [of "example_state\<lparr>disp_pax_buf := Some (example_buf\<lparr>pixels := None\<rparr>)\<rparr>"]
    example_failures(1,2)
  by (simp only: simp_thms) blast

lemma capture_failure_log [simp]:
  "capture_failure (asp_log_info tag msg s) = capture_failure s"
  by (simp add: capture_failure_def asp_log_info_def)

lemma save_screenshot_failure:
  assumes "capture_failure s = Some err"
  shows "\<exists>s' msg. save_screenshot s = Inr s' \<and> files s' = files s
    \<and> last (logged s') = (LOG_ERROR, ''screenshot'', msg)"
proof (cases err)
  case SurfaceUnavailable
  with assms save_screenshot_no_surface [of s] show ?thesis by simp
next
  case PixelBufferUnavailable
  with assms save_screenshot_no_pixels [of s] show ?thesis by simp
next
  case DestinationOpenFailure
  with assms save_screenshot_no_file [of s] show ?thesis by auto
qed

text \<open>
  C8. A trigger-press while the modifier is held, with a capture that fails for any of the
  three reasons (no surface, no pixel buffer, destination not opened): the event is still
  reported handled and the modifier is still cleared; the capture has logged its error and
  written no file.
\<close>


theorem capture_failure_contained:
  assumes "trigger_press e" "logo_key_held s" "capture_failure s = Some err"
  shows "\<exists>s' msg. input_hook_callback e s = Inr (True, s') \<and> \<not> logo_key_held s'
    \<and> files s' = files s \<and> last (logged s') = (LOG_ERROR, ''screenshot'', msg)"
proof -
  let ?s = "asp_log_info ''screenshot'' ''LOGO+P detected, taking screenshot...'' s"
  have "capture_failure ?s = Some err"
    using assms(3) by simp
  from save_screenshot_failure [OF this] obtain s1 msg where
    "save_screenshot ?s = Inr s1" "files s1 = files ?s"
    "last (logged s1) = (LOG_ERROR, ''screenshot'', msg)"
    by blast
  then show ?thesis
    using assms(1,2) by (simp add: callback_trigger_held asp_log_info_def)
qed

theorem capture_failure_contained_witness:
  "(\<exists>s' msg. input_hook_callback (scancode_event BSP_INPUT_SCANCODE_P)
        (example_state\<lparr>logo_key_held := True, disp_pax_buf := None\<rparr>) = Inr (True, s')
      \<and> \<not> logo_key_held s' \<and> files s' = Map.empty
      \<and> last (logged s') = (LOG_ERROR, ''screenshot'', msg))
   \<and> (\<exists>s' msg. input_hook_callback (scancode_event BSP_INPUT_SCANCODE_P)
        (example_state\<lparr>logo_key_held := True,
           disp_pax_buf := Some (example_buf\<lparr>pixels := None\<rparr>)\<rparr>) = Inr (True, s')
      \<and> \<not> logo_key_held s' \<and> files s' = Map.empty
      \<and> last (logged s') = (LOG_ERROR, ''screenshot'', msg))
   \<and> (\<exists>s' msg. input_hook_callback (scancode_event BSP_INPUT_SCANCODE_P)
        (example_state\<lparr>logo_key_held := True, fopen_ok := (\<lambda>p. False)\<rparr>) = Inr (True, s')
      \<and> \<not> logo_key_held s' \<and> files s' = Map.empty
      \<and> last (logged s') = (LOG_ERROR, ''screenshot'', msg))"
proof -
  have f: "capture_failure (example_state\<lparr>logo_key_held := True, disp_pax_buf := None\<rparr>)
      = Some SurfaceUnavailable"
    "capture_failure (example_state\<lparr>logo_key_held := True,
        disp_pax_buf := Some (example_buf\<lparr>pixels := None\<rparr>)\<rparr>) = Some PixelBufferUnavailable"
    "capture_failure (example_state\<lparr>logo_key_held := True, fopen_ok := (\<lambda>p. False)\<rparr>)
      = Some DestinationOpenFailure"
    by (simp_all add: capture_failure_def example_state_def example_buf_def)
  have fs: "files (example_state\<lparr>logo_key_held := True, disp_pax_buf := d\<rparr>) = Map.empty"
    "files (example_state\<lparr>logo_key_held := True, fopen_ok := g\<rparr>) = Map.empty" for d g
    by (simp_all add: example_state_def)
  show ?thesis
    using capture_failure_contained [OF example_facts(6) _ f(1)]
      capture_failure_contained [OF example_facts(6) _ f(2)]
      capture_failure_contained [OF example_facts(6) _ f(3)]
    by (simp add: fs)
qed

subsection \<open>The plugin's life cycle\<close>

lemma sless_sle: "(a :: c_int) <s 0 \<longleftrightarrow> \<not> 0 \<le>s a"
  by (auto simp: word_sless_alt word_sle_eq)

lemma minus_one_negative: "(- 1 :: c_int) <s 0"
  by (simp add: word_sless_alt)

lemma plugin_init_failed:
  assumes "r <s 0"
  shows "plugin_init ctx r s =
    (- 1, s\<lparr>plugin_ctx := ctx, hook_id := r,
            logged := logged s @ [(LOG_INFO, ''screenshot'', ''Screenshot plugin initializing...''),
                                   (LOG_ERROR, ''screenshot'', ''Failed to register input hook'')],
            calls := calls s @ [HOOK_REGISTER]\<rparr>)"
  using assms
  by (simp add: plugin_init_def asp_plugin_input_hook_register_def host_called_def
      asp_log_info_def asp_log_error_def)

lemma plugin_init_registered:
  assumes "\<not> r <s 0"
  shows "plugin_init ctx r s =
    (0, s\<lparr>plugin_ctx := ctx, hook_id := r,
           logged := logged s @ [(LOG_INFO, ''screenshot'', ''Screenshot plugin initializing...''),
              (LOG_INFO, ''screenshot'', ''Screenshot plugin initialized, hook_id='' @ fmt_d (sint r))],
           calls := calls s @ [HOOK_REGISTER], hooks := insert r (hooks s)\<rparr>)"
  using assms
  by (simp add: plugin_init_def asp_plugin_input_hook_register_def host_called_def
      asp_log_info_def asp_log_error_def)

lemma plugin_cleanup_held:
  assumes "0 \<le>s hook_id s"
  shows "plugin_cleanup ctx s =
    s\<lparr>plugin_ctx := None, hook_id := - 1,
       logged := logged s @ [(LOG_INFO, ''screenshot'', ''Screenshot plugin cleaned up'')],
       calls := calls s @ [HOOK_UNREGISTER (hook_id s)], hooks := hooks s - {hook_id s}\<rparr>"
  using assms
  by (simp add: plugin_cleanup_def asp_plugin_input_hook_unregister_def host_called_def
      asp_log_info_def)

lemma plugin_cleanup_free:
  assumes "hook_id s <s 0"
  shows "plugin_cleanup ctx s =
    s\<lparr>plugin_ctx := None,
       logged := logged s @ [(LOG_INFO, ''screenshot'', ''Screenshot plugin cleaned up'')]\<rparr>"
  using assms
  by (simp add: plugin_cleanup_def asp_log_info_def sless_sle)

lemma plugin_cleanup_negative: "hook_id (plugin_cleanup ctx s) <s 0"
  by (cases "0 \<le>s hook_id s")
    (simp_all add: plugin_cleanup_held plugin_cleanup_free sless_sle [symmetric] minus_one_negative)

lemma handle_inv_init:
  assumes "handle_inv s" "hook_id s <s 0"
  shows "handle_inv (snd (plugin_init ctx r s))"
  using assms
  by (cases "r <s 0") (auto simp: plugin_init_failed plugin_init_registered handle_inv_def sless_sle)

lemma handle_inv_cleanup:
  assumes "handle_inv s"
  shows "handle_inv (plugin_cleanup ctx s)"
  using assms minus_one_negative
  by (cases "0 \<le>s hook_id s")
    (auto simp: plugin_cleanup_held plugin_cleanup_free handle_inv_def sless_sle)

lemma handle_inv_lifecycle:
  assumes "handle_inv s" "\<not> l \<longrightarrow> hook_id s <s 0" "host_order l cs"
  shows "handle_inv (lifecycle cs s)"
  using assms
proof (induction l cs arbitrary: s rule: host_order.induct)
  case (1 l)
  then show ?case by simp
next
  case (2 l ctx r cs)
  then have "handle_inv (snd (plugin_init ctx r s))"
    by (simp add: handle_inv_init)
  with 2 show ?case by simp
next
  case (3 l ctx cs)
  have "handle_inv (plugin_cleanup ctx s)" "hook_id (plugin_cleanup ctx s) <s 0"
    using 3 by (simp_all add: handle_inv_cleanup plugin_cleanup_negative)
  with 3 show ?case by simp
qed

lemma unregistrations_entry:
  "unregistrations (entry c s) + (if 0 \<le>s hook_id (entry c s) then 1 else 0)
    \<le> unregistrations s + (if 0 \<le>s hook_id s then 1 else 0) + (if registered_ok c then 1 else 0)"
proof (cases c)
  case (INIT ctx r)
  then show ?thesis
    by (cases "r <s 0")
      (simp_all add: plugin_init_failed plugin_init_registered unregistrations_def sless_sle)
next
  case (CLEANUP ctx)
  then show ?thesis
    using minus_one_negative
    by (cases "0 \<le>s hook_id s")
      (simp_all add: plugin_cleanup_held plugin_cleanup_free unregistrations_def sless_sle)
qed

lemma unregistrations_lifecycle:
  "unregistrations (lifecycle cs s) + (if 0 \<le>s hook_id (lifecycle cs s) then 1 else 0)
    \<le> unregistrations s + (if 0 \<le>s hook_id s then 1 else 0) + length (filter registered_ok cs)"
proof (induction cs arbitrary: s)
  case Nil
  then show ?case by simp
next
  case (Cons c cs)
  define held :: "state \<Rightarrow> nat" where "held t = (if 0 \<le>s hook_id t then 1 else 0)" for t
  define ok :: nat where "ok = (if registered_ok c then 1 else 0)"
  have "unregistrations (lifecycle cs (entry c s)) + held (lifecycle cs (entry c s))
      \<le> unregistrations (entry c s) + held (entry c s) + length (filter registered_ok cs)"
    unfolding held_def by (rule Cons.IH)
  moreover have "unregistrations (entry c s) + held (entry c s) \<le> unregistrations s + held s + ok"
    unfolding held_def ok_def by (rule unregistrations_entry)
  moreover have "length (filter registered_ok (c # cs)) = ok + length (filter registered_ok cs)"
    by (simp add: ok_def)
  ultimately have "unregistrations (lifecycle (c # cs) s) + held (lifecycle (c # cs) s)
      \<le> unregistrations s + held s + length (filter registered_ok (c # cs))"
    by simp
  then show ?case
    unfolding held_def .
qed

text \<open>
  C9. The stored handle and the registration. After a failed registration \<^verbatim>\<open>init\<close>
  returns -1, the handle is negative and no hook is registered. \<^verbatim>\<open>cleanup\<close> with a
  nonnegative handle makes the one call to unregister that handle and sets it to -1; with a
  negative handle it makes no call. So a second \<^verbatim>\<open>cleanup\<close>, and a \<^verbatim>\<open>cleanup\<close> after a failed
  \<^verbatim>\<open>init\<close>, unregister nothing. Along every sequence of entry calls in the host's order the
  handle is nonnegative exactly when a hook is registered (and is that hook), and along any
  sequence at all there are no more unregistrations than successful registrations.
\<close>

theorem hook_handle_lifecycle:
  "(r <s 0 \<longrightarrow>
      fst (plugin_init ctx r s) = - 1 \<and> hook_id (snd (plugin_init ctx r s)) <s 0
      \<and> hooks (snd (plugin_init ctx r s)) = hooks s)
   \<and> (0 \<le>s hook_id s \<longrightarrow>
      calls (plugin_cleanup ctx s) = calls s @ [HOOK_UNREGISTER (hook_id s)]
      \<and> hook_id (plugin_cleanup ctx s) = - 1)
   \<and> (hook_id s <s 0 \<longrightarrow> calls (plugin_cleanup ctx s) = calls s)
   \<and> calls (plugin_cleanup ctx' (plugin_cleanup ctx s)) = calls (plugin_cleanup ctx s)
   \<and> (r <s 0 \<longrightarrow>
      calls (plugin_cleanup ctx' (snd (plugin_init ctx r s))) = calls (snd (plugin_init ctx r s)))
   \<and> (handle_inv s \<and> hook_id s <s 0 \<and> host_order False cs \<longrightarrow> handle_inv (lifecycle cs s))
   \<and> (hook_id s <s 0 \<longrightarrow>
      unregistrations (lifecycle cs s) \<le> unregistrations s + length (filter registered_ok cs))"
proof (intro conjI impI)
  assume "r <s 0"
  then show "fst (plugin_init ctx r s) = - 1" "hook_id (snd (plugin_init ctx r s)) <s 0"
    "hooks (snd (plugin_init ctx r s)) = hooks s"
    by (simp_all add: plugin_init_failed)
next
  assume "0 \<le>s hook_id s"
  then show "calls (plugin_cleanup ctx s) = calls s @ [HOOK_UNREGISTER (hook_id s)]"
    "hook_id (plugin_cleanup ctx s) = - 1"
    by (simp_all add: plugin_cleanup_held)
next
  assume "hook_id s <s 0"
  then show "calls (plugin_cleanup ctx s) = calls s"
    by (simp add: plugin_cleanup_free)
next
  show "calls (plugin_cleanup ctx' (plugin_cleanup ctx s)) = calls (plugin_cleanup ctx s)"
    using plugin_cleanup_negative [of ctx s] by (simp add: plugin_cleanup_free)
next
  assume "r <s 0"
  then have "hook_id (snd (plugin_init ctx r s)) <s 0"
    by (simp add: plugin_init_failed)
  then show "calls (plugin_cleanup ctx' (snd (plugin_init ctx r s))) = calls (snd (plugin_init ctx r s))"
    by (simp add: plugin_cleanup_free)
next
  assume "handle_inv s \<and> hook_id s <s 0 \<and> host_order False cs"
  then show "handle_inv (lifecycle cs s)"
    using handle_inv_lifecycle [of s False cs] by simp
next
  assume "hook_id s <s 0"
  then have "\<not> 0 \<le>s hook_id s"
    by (simp add: sless_sle)
  then show "unregistrations (lifecycle cs s) \<le> unregistrations s + length (filter registered_ok cs)"
    using unregistrations_lifecycle [of cs s] by (simp split: if_splits)
qed

theorem hook_handle_lifecycle_witness:
  "fst (plugin_init None (- 1) example_state) = - 1
   \<and> hook_id (snd (plugin_init None (- 1) example_state)) <s 0
   \<and> hooks (snd (plugin_init None (- 1) example_state)) = {}
   \<and> calls (plugin_cleanup None (example_state\<lparr>hook_id := 3, hooks := {3}\<rparr>)) = [HOOK_UNREGISTER 3]
   \<and> hook_id (plugin_cleanup None (example_state\<lparr>hook_id := 3, hooks := {3}\<rparr>)) = - 1
   \<and> calls (plugin_cleanup None example_state) = []
   \<and> calls (plugin_cleanup None (snd (plugin_init None (- 1) example_state)))
        = calls (snd (plugin_init None (- 1) example_state))
   \<and> handle_inv (lifecycle [INIT None 3, CLEANUP None, CLEANUP None] example_state)
   \<and> unregistrations (lifecycle [INIT None 3, CLEANUP None, CLEANUP None] example_state) \<le> 1"
proof -
  have neg: "(- 1 :: c_int) <s 0" "hook_id example_state <s 0"
    by (simp_all add: word_sless_alt example_state_def)
  have pos: "0 \<le>s hook_id (example_state\<lparr>hook_id := 3, hooks := {3}\<rparr>)"
    by (simp add: word_sle_eq)
  have inv: "handle_inv example_state"
    by (simp add: handle_inv_def example_state_def word_sle_eq)
  have ord: "host_order False [INIT None 3, CLEANUP None, CLEANUP None]"
    by simp
  have cnt: "length (filter registered_ok [INIT None 3, CLEANUP None, CLEANUP (None :: nat option)]) = 1"
    by (simp add: word_sless_alt)
  have e: "hooks example_state = {}" "calls example_state = []" "unregistrations example_state = 0"
    by (simp_all add: example_state_def unregistrations_def)
  show ?thesis
    using hook_handle_lifecycle [of "- 1" None example_state None
        "[INIT None 3, CLEANUP None, CLEANUP None]"]
      hook_handle_lifecycle [of "- 1" None "example_state\<lparr>hook_id := 3, hooks := {3}\<rparr>" None "[]"]
      neg pos inv ord cnt e
    by simp
qed

subsection \<open>The destination path\<close>

lemma digit_char_0: "digit_char 0 = CHR ''0''"
  by (simp add: digit_char_def)

lemma fixed_dec_0: "fixed_dec n 0 = replicate n CHR ''0''"
  by (induction n) (simp_all add: digit_char_0 replicate_append_same)

lemma length_dec_nat_pos: "0 < length (dec_nat v)"
  by (subst dec_nat.simps) simp

lemma pad_dec_nat:
  "v < 10 ^ n \<Longrightarrow> 0 < n \<Longrightarrow>
    length (dec_nat v) \<le> n \<and> replicate (n - length (dec_nat v)) CHR ''0'' @ dec_nat v = fixed_dec n v"
proof (induction n arbitrary: v)
  case 0
  then show ?case by simp
next
  case (Suc n)
  show ?case
  proof (cases "v < 10")
    case True
    then have "dec_nat v = [digit_char v]"
      by (subst dec_nat.simps) simp
    with True show ?thesis
      by (simp add: fixed_dec_0)
  next
    case False
    then have d: "dec_nat v = dec_nat (v div 10) @ [digit_char (v mod 10)]"
      by (subst dec_nat.simps) simp
    have n: "0 < n"
      using False Suc.prems(1) by (cases n) simp_all
    have "v div 10 < 10 ^ n"
      using Suc.prems(1) by (simp add: less_mult_imp_div_less mult.commute)
    from Suc.IH [OF this n] show ?thesis
      by (simp add: d Suc_diff_le)
  qed
qed

lemma fmt_0d_fixed:
  assumes "0 \<le> k" "k < 10 ^ n" "0 < n"
  shows "fmt_0d n k = fixed_dec n (nat k)"
proof -
  have "nat k < 10 ^ n"
    using assms(1,2) by (simp add: nat_less_iff)
  from pad_dec_nat [OF this assms(3)] show ?thesis
    using assms(1) by (simp add: fmt_0d_def Let_def)
qed

lemma length_fixed_dec [simp]: "length (fixed_dec n v) = n"
  by (induction n arbitrary: v) simp_all

lemma fixed_dec_2:
  "fixed_dec 2 v = [digit_char (v div 10 mod 10), digit_char (v mod 10)]"
proof -
  have "fixed_dec (Suc (Suc 0)) v = [digit_char (v div 10 mod 10), digit_char (v mod 10)]"
    by simp
  then show ?thesis
    by (simp only: numeral_2_eq_2)
qed

lemma fixed_dec_4:
  "fixed_dec 4 v =
    [digit_char (v div 10 div 10 div 10 mod 10), digit_char (v div 10 div 10 mod 10),
     digit_char (v div 10 mod 10), digit_char (v mod 10)]"
proof -
  have "fixed_dec (Suc (Suc (Suc (Suc 0)))) v =
    [digit_char (v div 10 div 10 div 10 mod 10), digit_char (v div 10 div 10 mod 10),
     digit_char (v div 10 mod 10), digit_char (v mod 10)]"
    by simp
  moreover have "(4 :: nat) = Suc (Suc (Suc (Suc 0)))"
    by simp
  ultimately show ?thesis
    by (simp only:)
qed

lemma sint_plus_numeral:
  fixes a :: c_int
  assumes "- (2 ^ 31) \<le> sint a + k" "sint a + k < 2 ^ 31" "sint (b :: c_int) = k"
  shows "sint (a + b) = sint a + k"
  using sint_add_no_wrap [of a b] assms by simp

text \<open>
  C6, as amended. For a local time with every field in its range and a year from 0 to 9999,
  the path is \<^verbatim>\<open>/sd/screenshot-\<close>, the year in exactly four digits, month (counted from 1),
  day, hour, minute and second in exactly two digits each, and \<^verbatim>\<open>.ppm\<close>: 33 characters.
  The clock at 2024-03-05 09:07:02 gives \<^verbatim>\<open>/sd/screenshot-20240305090702.ppm\<close>.
\<close>


theorem filename_format:
  assumes "tm_ok t" "0 \<le> sint (tm_year t) + 1900" "sint (tm_year t) + 1900 \<le> 9999"
  shows "screenshot_filename t =
      ''/sd/screenshot-''
        @ fixed_dec 4 (nat (sint (tm_year t) + 1900))
        @ fixed_dec 2 (nat (sint (tm_mon t) + 1))
        @ fixed_dec 2 (nat (sint (tm_mday t)))
        @ fixed_dec 2 (nat (sint (tm_hour t)))
        @ fixed_dec 2 (nat (sint (tm_min t)))
        @ fixed_dec 2 (nat (sint (tm_sec t)))
        @ ''.ppm''
    \<and> length (screenshot_filename t) = 33"
proof -
  have y: "sint (tm_year t + 1900) = sint (tm_year t) + 1900"
    by (rule sint_plus_numeral) (use assms(2,3) in simp_all)
  have m: "sint (tm_mon t + 1) = sint (tm_mon t) + 1"
    by (rule sint_plus_numeral) (use assms(1) in \<open>simp_all add: tm_ok_def\<close>)
  have f: "fmt_0d 4 (sint (tm_year t + 1900)) = fixed_dec 4 (nat (sint (tm_year t) + 1900))"
    "fmt_0d 2 (sint (tm_mon t + 1)) = fixed_dec 2 (nat (sint (tm_mon t) + 1))"
    "fmt_0d 2 (sint (tm_mday t)) = fixed_dec 2 (nat (sint (tm_mday t)))"
    "fmt_0d 2 (sint (tm_hour t)) = fixed_dec 2 (nat (sint (tm_hour t)))"
    "fmt_0d 2 (sint (tm_min t)) = fixed_dec 2 (nat (sint (tm_min t)))"
    "fmt_0d 2 (sint (tm_sec t)) = fixed_dec 2 (nat (sint (tm_sec t)))"
    unfolding y m using assms by (simp_all add: fmt_0d_fixed tm_ok_def)
  show ?thesis
    unfolding screenshot_filename_def f by simp
qed

theorem filename_format_witness:
  "tm_ok example_time \<and> 0 \<le> sint (tm_year example_time) + 1900
   \<and> sint (tm_year example_time) + 1900 \<le> 9999
   \<and> screenshot_filename example_time = ''/sd/screenshot-20240305090702.ppm''"
proof -
  have h: "tm_ok example_time" "0 \<le> sint (tm_year example_time) + 1900"
    "sint (tm_year example_time) + 1900 \<le> 9999"
    by (simp_all add: tm_ok_def example_time_def)
  have "fixed_dec 4 (nat (sint (tm_year example_time) + 1900)) = ''2024''"
    "fixed_dec 2 (nat (sint (tm_mon example_time) + 1)) = ''03''"
    "fixed_dec 2 (nat (sint (tm_mday example_time))) = ''05''"
    "fixed_dec 2 (nat (sint (tm_hour example_time))) = ''09''"
    "fixed_dec 2 (nat (sint (tm_min example_time))) = ''07''"
    "fixed_dec 2 (nat (sint (tm_sec example_time))) = ''02''"
    by (simp_all add: example_time_def fixed_dec_2 fixed_dec_4 digit_char_def)
  with filename_format [OF h] h show ?thesis
    by simp
qed

text \<open>
  C6 as stated, for every local time, fails in the year 10000: \<^verbatim>\<open>%04d\<close> pads to four
  characters and cuts nothing off, so the year takes five digits and the path 34 characters.
\<close>


theorem filename_year_10000:
  "tm_ok \<lparr>tm_sec = 0, tm_min = 0, tm_hour = 0, tm_mday = 1, tm_mon = 0, tm_year = 8100\<rparr>
   \<and> screenshot_filename \<lparr>tm_sec = 0, tm_min = 0, tm_hour = 0, tm_mday = 1, tm_mon = 0, tm_year = 8100\<rparr>
       = ''/sd/screenshot-100000101000000.ppm''
   \<and> length (screenshot_filename
        \<lparr>tm_sec = 0, tm_min = 0, tm_hour = 0, tm_mday = 1, tm_mon = 0, tm_year = 8100\<rparr>) = 34"
  by (simp add: tm_ok_def screenshot_filename_def fmt_0d_def dec_nat.simps digit_char_def)

subsection \<open>The file written\<close>

lemma digit_byte:
  assumes "d < 10"
  shows "unat (byte_of_char (digit_char d)) = 48 + d"
proof -
  from assms have "d = 0 \<or> d = 1 \<or> d = 2 \<or> d = 3 \<or> d = 4 \<or> d = 5 \<or> d = 6 \<or> d = 7 \<or> d = 8 \<or> d = 9"
    by arith
  then show ?thesis
    by (elim disjE) (simp_all add: digit_char_def byte_of_char_def)
qed

lemma is_digit_dec_nat: "b \<in> set (bytes_of (dec_nat n)) \<Longrightarrow> is_digit b"
proof (induction n rule: dec_nat.induct)
  case (1 n)
  show ?case
  proof (cases "n < 10")
    case True
    then have "dec_nat n = [digit_char n]"
      by (subst dec_nat.simps) simp
    with 1(2) True show ?thesis
      by (simp add: bytes_of_def is_digit_def digit_byte)
  next
    case False
    then have d: "dec_nat n = dec_nat (n div 10) @ [digit_char (n mod 10)]"
      by (subst dec_nat.simps) simp
    have "is_digit (byte_of_char (digit_char (n mod 10)))"
      by (simp add: is_digit_def digit_byte)
    with 1 False d show ?thesis
      by (auto simp: bytes_of_def)
  qed
qed

lemma digits_value_snoc: "digits_value (ds @ [b]) = 10 * digits_value ds + (unat b - 48)"
  by (simp add: digits_value_def)

lemma digits_value_dec_nat: "digits_value (bytes_of (dec_nat n)) = n"
proof (induction n rule: dec_nat.induct)
  case (1 n)
  show ?case
  proof (cases "n < 10")
    case True
    then have "dec_nat n = [digit_char n]"
      by (subst dec_nat.simps) simp
    with True show ?thesis
      by (simp add: bytes_of_def digits_value_def digit_byte)
  next
    case False
    then have d: "dec_nat n = dec_nat (n div 10) @ [digit_char (n mod 10)]"
      by (subst dec_nat.simps) simp
    have "digits_value (bytes_of (dec_nat (n div 10))) = n div 10"
      using 1 False by simp
    then have "digits_value (bytes_of (dec_nat (n div 10)) @ [byte_of_char (digit_char (n mod 10))])
        = 10 * (n div 10) + n mod 10"
      by (simp add: digits_value_snoc digit_byte)
    then show ?thesis
      by (simp add: d bytes_of_def)
  qed
qed

lemma bytes_of_dec_nat_nonempty: "bytes_of (dec_nat n) \<noteq> []"
  using length_dec_nat_pos [of n] by (simp add: bytes_of_def)

lemma read_number:
  assumes "\<not> is_digit c"
  shows "takeWhile is_digit (bytes_of (dec_nat n) @ c # r) = bytes_of (dec_nat n)"
    "dropWhile is_digit (bytes_of (dec_nat n) @ c # r) = c # r"
  using assms by (simp_all add: is_digit_dec_nat)

lemma bytes_of_append [simp]: "bytes_of (a @ b) = bytes_of a @ bytes_of b"
  by (simp add: bytes_of_def)

lemma ppm_decode_header:
  assumes "0 \<le> sint w" "0 \<le> sint h"
  shows "ppm_decode (bytes_of (ppm_header w h) @ payload)
    = Some (nat (sint w), nat (sint h), 255, payload)"
proof -
  define wd where "wd = bytes_of (dec_nat (nat (sint w)))"
  define hd where "hd = bytes_of (dec_nat (nat (sint h)))"
  have sep: "\<not> is_digit 0x20" "\<not> is_digit 0x0A"
    by (simp_all add: is_digit_def)
  have hdr: "bytes_of (ppm_header w h) @ payload
      = [0x50, 0x36, 0x0A] @ (wd @ 0x20 # (hd @ 0x0A # ([0x32, 0x35, 0x35] @ 0x0A # payload)))"
    using assms by (simp add: ppm_header_def fmt_d_def wd_def hd_def bytes_of_def byte_of_char_def)
  have w1: "takeWhile is_digit (wd @ 0x20 # r) = wd" "dropWhile is_digit (wd @ 0x20 # r) = 0x20 # r" for r
    unfolding wd_def by (rule read_number [OF sep(1)])+
  have h1: "takeWhile is_digit (hd @ 0x0A # r) = hd" "dropWhile is_digit (hd @ 0x0A # r) = 0x0A # r" for r
    unfolding hd_def by (rule read_number [OF sep(2)])+
  have m1: "takeWhile is_digit ([0x32, 0x35, 0x35] @ 0x0A # r) = [0x32, 0x35, 0x35]"
    "dropWhile is_digit ([0x32, 0x35, 0x35] @ 0x0A # r) = 0x0A # r" for r
    by (simp_all add: is_digit_def)
  have ne: "wd \<noteq> []" "hd \<noteq> []"
    by (simp_all add: wd_def hd_def bytes_of_dec_nat_nonempty)
  have v: "digits_value wd = nat (sint w)" "digits_value hd = nat (sint h)"
    by (simp_all add: wd_def hd_def digits_value_dec_nat)
  have v255: "digits_value [0x32, 0x35, 0x35] = 255"
    by (simp add: digits_value_def)
  show ?thesis
    unfolding hdr ppm_decode_def
    by (simp add: w1 h1 m1 ne v v255 Let_def del: append_Cons)
qed

lemma length_swapped: "length (swapped px a b) = (b - a) * 3"
  by (induction b) (simp_all add: swapped_def Suc_diff_le)

lemma swapped_Suc: "swapped px 0 (Suc n) = swapped px 0 n @ [px ! (n * 3 + 2), px ! (n * 3 + 1), px ! (n * 3)]"
  by (simp add: swapped_def)

lemma swapped_nth:
  assumes "i < n"
  shows "swapped px 0 n ! (i * 3) = px ! (i * 3 + 2)"
    "swapped px 0 n ! (i * 3 + 1) = px ! (i * 3 + 1)"
    "swapped px 0 n ! (i * 3 + 2) = px ! (i * 3)"
  using assms
proof (induction n)
  case 0
  {
    case 1 then show ?case by simp
  next
    case 2 then show ?case by simp
  next
    case 3 then show ?case by simp
  }
next
  case (Suc n)
  have len: "length (swapped px 0 n) = n * 3"
    by (simp add: length_swapped)
  {
    case 1
    then show ?case
      using Suc.IH(1) by (cases "i < n") (auto simp: swapped_Suc nth_append len less_Suc_eq)
  next
    case 2
    then show ?case
      using Suc.IH(2) by (cases "i < n") (auto simp: swapped_Suc nth_append len less_Suc_eq)
  next
    case 3
    then show ?case
      using Suc.IH(3) by (cases "i < n") (auto simp: swapped_Suc nth_append len less_Suc_eq)
  }
qed

lemma save_screenshot_written:
  assumes "disp_pax_buf s = Some b" "pixels b = Some px"
    "fopen_ok s (screenshot_filename (local_time s))"
    "put_rows px (width b) (height b) 0 (bytes_of (ppm_header (width b) (height b))) = Inr out"
  shows "save_screenshot s =
    Inr (s\<lparr>files := (files s)(screenshot_filename (local_time s) \<mapsto> out),
           logged := logged s @ [(LOG_INFO, ''screenshot'',
                ''Saving screenshot to '' @ screenshot_filename (local_time s) @ '' (''
                  @ fmt_d (sint (width b)) @ ''x'' @ fmt_d (sint (height b)) @ '')''),
              (LOG_INFO, ''screenshot'', ''Screenshot saved: '' @ screenshot_filename (local_time s))],
           calls := calls s @ [DISP_GET_PAX_BUF, PAX_BUF_GET_PIXELS,
              FOPEN (screenshot_filename (local_time s)),
              FCLOSE (screenshot_filename (local_time s))]\<rparr>)"
  using assms
  by (simp add: save_screenshot_def host_called_def asp_log_info_def Let_def)

lemma save_screenshot_fault:
  assumes "disp_pax_buf s = Some b" "pixels b = Some px"
    "fopen_ok s (screenshot_filename (local_time s))"
    "put_rows px (width b) (height b) 0 (bytes_of (ppm_header (width b) (height b))) = Inl f"
  shows "save_screenshot s = Inl f"
  using assms
  by (simp add: save_screenshot_def host_called_def asp_log_info_def Let_def)

lemma example_filename:
  "screenshot_filename example_time = ''/sd/screenshot-20240305090702.ppm''"
  by (simp add: screenshot_filename_def example_time_def fmt_0d_def dec_nat.simps digit_char_def)

lemma example_rows:
  "put_rows [1, 2, 3, 4, 5, 6] 2 1 0 out = Inr (out @ [3, 2, 1, 6, 5, 4])"
  by (simp add: put_rows.simps put_row.simps put_pixel_def read_pixels_def word_sless_alt)

lemma example_header:
  "bytes_of (ppm_header 2 1) = [0x50, 0x36, 0x0A, 0x32, 0x20, 0x31, 0x0A, 0x32, 0x35, 0x35, 0x0A]"
  by (simp add: ppm_header_def fmt_d_def dec_nat.simps digit_char_def bytes_of_def byte_of_char_def)

text \<open>
  C2. A display with a surface of width \<open>W > 0\<close> and height \<open>H > 0\<close> whose buffer holds
  \<open>W * H\<close> triplets (blue, green, red), and a destination that opens. The capture returns,
  and the file at the computed path is the header followed by a payload such that: the file
  decodes to magic P6, width \<open>W\<close>, height \<open>H\<close>, maximum 255 and that payload; the payload is
  as long as the buffer; and for every pixel \<open>i < W * H\<close> its bytes \<open>3i\<close>, \<open>3i + 1\<close>, \<open>3i + 2\<close>
  are the buffer's bytes \<open>3i + 2\<close>, \<open>3i + 1\<close>, \<open>3i\<close>. The pixel of column \<open>x\<close> in row \<open>y\<close> is
  pixel \<open>y * W + x\<close>, so the payload is row-major, top to bottom and left to right. The buffer
  is an object of the 32-bit machine, so it has fewer than \<open>2 ^ 31\<close> bytes and the \<^verbatim>\<open>int\<close>
  index of the loop reaches each of them.
\<close>


theorem encoder_round_trip:
  assumes "disp_pax_buf s = Some b" and "pixels b = Some px"
    and "fopen_ok s (screenshot_filename (local_time s))"
    and "0 < sint (width b)" and "0 < sint (height b)"
    and "int (length px) = sint (width b) * sint (height b) * 3"
    and "length px < 2 ^ 31"
  shows "\<exists>s' payload.
      save_screenshot s = Inr s'
      \<and> files s' (screenshot_filename (local_time s))
          = Some (bytes_of (ppm_header (width b) (height b)) @ payload)
      \<and> ppm_decode (bytes_of (ppm_header (width b) (height b)) @ payload)
          = Some (nat (sint (width b)), nat (sint (height b)), 255, payload)
      \<and> length payload = length px
      \<and> (\<forall>i < nat (sint (width b) * sint (height b)).
            payload ! (i * 3 + 0) = px ! (i * 3 + 2)
            \<and> payload ! (i * 3 + 1) = px ! (i * 3 + 1)
            \<and> payload ! (i * 3 + 2) = px ! (i * 3 + 0))"
proof -
  define n where "n = nat (sint (width b) * sint (height b))"
  define payload where "payload = swapped px 0 n"
  have ok: "framebuffer_ok b"
    using assms by (simp add: framebuffer_ok_def)
  have rows: "put_rows px (width b) (height b) 0 (bytes_of (ppm_header (width b) (height b)))
      = Inr (bytes_of (ppm_header (width b) (height b)) @ payload)"
    unfolding payload_def n_def by (rule put_rows_framebuffer [OF ok assms(2)])
  have saved: "\<exists>s'. save_screenshot s = Inr s'
      \<and> files s' (screenshot_filename (local_time s))
          = Some (bytes_of (ppm_header (width b) (height b)) @ payload)"
    by (simp add: save_screenshot_written [OF assms(1,2,3) rows])
  have dec: "ppm_decode (bytes_of (ppm_header (width b) (height b)) @ payload)
      = Some (nat (sint (width b)), nat (sint (height b)), 255, payload)"
    by (rule ppm_decode_header) (use assms(4,5) in simp_all)
  have "int (length px) = int n * 3"
    using assms(4,5,6) by (simp add: n_def)
  then have len: "length payload = length px"
    by (simp add: payload_def length_swapped)
  have px: "\<forall>i < n. payload ! (i * 3 + 0) = px ! (i * 3 + 2)
      \<and> payload ! (i * 3 + 1) = px ! (i * 3 + 1)
      \<and> payload ! (i * 3 + 2) = px ! (i * 3 + 0)"
  proof (intro allI impI)
    fix i assume "i < n"
    from swapped_nth [OF this, of px] show "payload ! (i * 3 + 0) = px ! (i * 3 + 2)
      \<and> payload ! (i * 3 + 1) = px ! (i * 3 + 1)
      \<and> payload ! (i * 3 + 2) = px ! (i * 3 + 0)"
      unfolding payload_def by simp
  qed
  from saved dec len px show ?thesis
    unfolding n_def by blast
qed

theorem encoder_round_trip_witness:
  "disp_pax_buf example_state = Some example_buf
   \<and> pixels example_buf = Some [1, 2, 3, 4, 5, 6]
   \<and> fopen_ok example_state (screenshot_filename (local_time example_state))
   \<and> 0 < sint (width example_buf) \<and> 0 < sint (height example_buf)
   \<and> int (length [1, 2, 3, 4, 5, 6 :: u8]) = sint (width example_buf) * sint (height example_buf) * 3
   \<and> (\<exists>s' payload.
        save_screenshot example_state = Inr s'
        \<and> files s' ''/sd/screenshot-20240305090702.ppm''
            = Some ([0x50, 0x36, 0x0A, 0x32, 0x20, 0x31, 0x0A, 0x32, 0x35, 0x35, 0x0A] @ payload)
        \<and> ppm_decode ([0x50, 0x36, 0x0A, 0x32, 0x20, 0x31, 0x0A, 0x32, 0x35, 0x35, 0x0A] @ payload)
            = Some (2, 1, 255, payload)
        \<and> length payload = length [1, 2, 3, 4, 5, 6 :: u8]
        \<and> (\<forall>i < 2. payload ! (i * 3 + 0) = [1, 2, 3, 4, 5, 6] ! (i * 3 + 2)
              \<and> payload ! (i * 3 + 1) = [1, 2, 3, 4, 5, 6] ! (i * 3 + 1)
              \<and> payload ! (i * 3 + 2) = [1, 2, 3, 4, 5, 6] ! (i * 3 + 0)))"
proof -
  have h: "disp_pax_buf example_state = Some example_buf"
    "pixels example_buf = Some [1, 2, 3, 4, 5, 6]"
    "fopen_ok example_state (screenshot_filename (local_time example_state))"
    "0 < sint (width example_buf)" "0 < sint (height example_buf)"
    "int (length [1, 2, 3, 4, 5, 6 :: u8]) = sint (width example_buf) * sint (height example_buf) * 3"
    "length [1, 2, 3, 4, 5, 6 :: u8] < 2 ^ 31"
    by (simp_all add: example_state_def example_buf_def)
  have e: "screenshot_filename (local_time example_state) = ''/sd/screenshot-20240305090702.ppm''"
    "width example_buf = 2" "height example_buf = 1"
    by (simp_all add: example_state_def example_buf_def example_filename)
  have n: "nat (sint (2 :: c_int) * sint (1 :: c_int)) = 2" "nat (sint (2 :: c_int)) = 2"
    "nat (sint (1 :: c_int)) = 1"
    by simp_all
  from encoder_round_trip [OF h] h(1-6) show ?thesis
    unfolding e example_header n by simp
qed

text \<open>
  C10. Two invocations that see the same surface (width, height, pixel bytes) and the same
  local time, and in which the surface, the pixel buffer and the opening of the destination
  all succeed, may differ in everything else (the statics of the plugin, the files present,
  the log, the calls made before). They open and close the same path and leave the same bytes
  in the file there. A capture ends otherwise only by a read outside the pixel buffer, and
  then both invocations end so.
\<close>


theorem capture_deterministic:
  assumes "disp_pax_buf s1 = disp_pax_buf s2" and "local_time s1 = local_time s2"
    and "capture_failure s1 = None" and "capture_failure s2 = None"
  shows "(save_screenshot s1 = Inl OutOfBounds \<and> save_screenshot s2 = Inl OutOfBounds)
    \<or> (\<exists>path bytes s1' s2'.
          save_screenshot s1 = Inr s1' \<and> save_screenshot s2 = Inr s2'
          \<and> calls s1' = calls s1 @ [DISP_GET_PAX_BUF, PAX_BUF_GET_PIXELS, FOPEN path, FCLOSE path]
          \<and> calls s2' = calls s2 @ [DISP_GET_PAX_BUF, PAX_BUF_GET_PIXELS, FOPEN path, FCLOSE path]
          \<and> files s1' = (files s1)(path \<mapsto> bytes)
          \<and> files s2' = (files s2)(path \<mapsto> bytes))"
proof -
  from assms(3) obtain b px where b: "disp_pax_buf s1 = Some b" "pixels b = Some px"
    "fopen_ok s1 (screenshot_filename (local_time s1))"
    by (auto simp: capture_failure_iff)
  have b2: "disp_pax_buf s2 = Some b" "fopen_ok s2 (screenshot_filename (local_time s2))"
    using assms(1,4) b(1) by (auto simp: capture_failure_iff)
  show ?thesis
  proof (cases "put_rows px (width b) (height b) 0 (bytes_of (ppm_header (width b) (height b)))")
    case (Inl f)
    have "f = OutOfBounds"
      by (cases f) simp
    with Inl show ?thesis
      using save_screenshot_fault [OF b Inl] save_screenshot_fault [OF b2(1) b(2) b2(2) Inl]
      by simp
  next
    case (Inr out)
    define path where "path = screenshot_filename (local_time s1)"
    have p2: "screenshot_filename (local_time s2) = path"
      using assms(2) by (simp add: path_def)
    obtain s1' where s1': "save_screenshot s1 = Inr s1'"
      "calls s1' = calls s1 @ [DISP_GET_PAX_BUF, PAX_BUF_GET_PIXELS, FOPEN path, FCLOSE path]"
      "files s1' = (files s1)(path \<mapsto> out)"
      using save_screenshot_written [OF b Inr] by (simp add: path_def)
    obtain s2' where s2': "save_screenshot s2 = Inr s2'"
      "calls s2' = calls s2 @ [DISP_GET_PAX_BUF, PAX_BUF_GET_PIXELS, FOPEN path, FCLOSE path]"
      "files s2' = (files s2)(path \<mapsto> out)"
      using save_screenshot_written [OF b2(1) b(2) b2(2) Inr] by (simp add: p2)
    from s1' s2' show ?thesis
      by blast
  qed
qed

theorem capture_deterministic_witness:
  "disp_pax_buf example_state = disp_pax_buf (example_state\<lparr>logo_key_held := True, hook_id := 7\<rparr>)
   \<and> local_time example_state = local_time (example_state\<lparr>logo_key_held := True, hook_id := 7\<rparr>)
   \<and> capture_failure example_state = None
   \<and> capture_failure (example_state\<lparr>logo_key_held := True, hook_id := 7\<rparr>) = None
   \<and> (\<exists>path bytes s1' s2'.
          save_screenshot example_state = Inr s1'
          \<and> save_screenshot (example_state\<lparr>logo_key_held := True, hook_id := 7\<rparr>) = Inr s2'
          \<and> calls s1' = [DISP_GET_PAX_BUF, PAX_BUF_GET_PIXELS, FOPEN path, FCLOSE path]
          \<and> calls s2' = [DISP_GET_PAX_BUF, PAX_BUF_GET_PIXELS, FOPEN path, FCLOSE path]
          \<and> files s1' = [path \<mapsto> bytes] \<and> files s2' = [path \<mapsto> bytes])"
proof -
  let ?s2 = "example_state\<lparr>logo_key_held := True, hook_id := 7\<rparr>"
  have h: "disp_pax_buf example_state = disp_pax_buf ?s2"
    "local_time example_state = local_time ?s2"
    "capture_failure example_state = None" "capture_failure ?s2 = None"
    by (simp_all add: capture_failure_def example_state_def example_buf_def)
  obtain s' where "save_screenshot example_state = Inr s'"
    using save_screenshot_returns [OF example_facts(2)] by blast
  then have ok: "save_screenshot example_state \<noteq> Inl OutOfBounds"
    by simp
  have e: "calls example_state = []" "files example_state = Map.empty"
    "calls ?s2 = []" "files ?s2 = Map.empty"
    by (simp_all add: example_state_def)
  from capture_deterministic [OF h] ok h show ?thesis
    unfolding e by simp
qed

end
